theory Spec2Isabelle
  imports Complex_Main
begin

section \<open>Python values and the operating-system interface\<close>

text \<open>
  The two scripts \<^verbatim>\<open>measure-context.py\<close> and \<^verbatim>\<open>compare-context.py\<close> read
  files, call a tokenizer and build dictionaries. Exceptions are values of type \<open>exn\<close>;
  a computation that may raise returns \<open>exn + 'a\<close> with \<open>Inl\<close> for the exception.
\<close>

datatype exn =
    FileNotFoundError
  | PermissionError
  | UnicodeDecodeError
  | IsADirectoryError
  | NotADirectoryError
  | JSONDecodeError
  | ValueError
  | KeyError string
  | TypeError
  | AttributeError
  | ZeroDivisionError
  | RecursionError

text \<open>
  The operating system as the scripts use it: \<open>read_text fs enc p\<close> is
  \<^verbatim>\<open>open(p, 'r', encoding=enc).read()\<close> (the decoded text, after newline translation,
  or the exception raised by \<^verbatim>\<open>open\<close> or \<^verbatim>\<open>read\<close>; \<open>enc = None\<close> is the
  default encoding), \<open>path_exists\<close> is \<^verbatim>\<open>os.path.exists\<close>, \<open>listdir\<close> is
  \<^verbatim>\<open>os.listdir\<close> and \<open>path_join\<close> is \<^verbatim>\<open>os.path.join\<close>.
\<close>

record os =
  read_text :: "string option \<Rightarrow> string \<Rightarrow> exn + string"
  path_exists :: "string \<Rightarrow> bool"
  listdir :: "string \<Rightarrow> exn + string list"
  path_join :: "string \<Rightarrow> string \<Rightarrow> string"

text \<open>
  The tokenizer \<^verbatim>\<open>enc.encode\<close> of the external library: it returns the list of token
  ids of a text or raises. It is a parameter of everything that measures a file.
\<close>

type_synonym tokenizer = "string \<Rightarrow> exn + nat list"

subsection \<open>\<^verbatim>\<open>str.split\<close> on a one-character separator\<close>

fun split_py :: "char \<Rightarrow> string \<Rightarrow> string list" where
  "split_py sep [] = [[]]"
| "split_py sep (x # xs) =
     (let r = split_py sep xs
      in if x = sep then [] # r else (x # hd r) # tl r)"

definition newline :: char where
  "newline = CHR 0x0A"

section \<open>The file metrics collector\<close>

text \<open>
  \<^verbatim>\<open>
  def count_tokens(filepath):
      try:
          with open(filepath, 'r', encoding='utf-8') as f:
              content = f.read()
          return len(enc.encode(content)), len(content.split('\n'))
      except:
          return 0, 0
  \<close>
  \<open>count_tokens_try\<close> is the body of the \<^verbatim>\<open>try\<close>, \<open>count_tokens\<close> adds the handler.
\<close>

definition count_tokens_try :: "os \<Rightarrow> tokenizer \<Rightarrow> string \<Rightarrow> exn + (int \<times> int)" where
  "count_tokens_try fs enc filepath =
     (case read_text fs (Some ''utf-8'') filepath of
        Inl e \<Rightarrow> Inl e
      | Inr content \<Rightarrow>
          (case enc content of
             Inl e \<Rightarrow> Inl e
           | Inr toks \<Rightarrow> Inr (int (length toks), int (length (split_py newline content)))))"

definition count_tokens :: "os \<Rightarrow> tokenizer \<Rightarrow> string \<Rightarrow> int \<times> int" where
  "count_tokens fs enc filepath =
     (case count_tokens_try fs enc filepath of
        Inl e \<Rightarrow> (0, 0)
      | Inr r \<Rightarrow> r)"

section \<open>Dictionaries\<close>

text \<open>
  A Python \<^verbatim>\<open>dict\<close> keeps its keys in insertion order; it is an association list
  without repeated keys. \<open>dict_set d k v\<close> is \<^verbatim>\<open>d[k] = v\<close>: an existing key keeps
  its place and takes the new value, a new key goes to the end.
\<close>

type_synonym ('k, 'v) dict = "('k \<times> 'v) list"

fun dict_set :: "('k, 'v) dict \<Rightarrow> 'k \<Rightarrow> 'v \<Rightarrow> ('k, 'v) dict" where
  "dict_set [] k v = [(k, v)]"
| "dict_set ((k', v') # d) k v =
     (if k' = k then (k, v) # d else (k', v') # dict_set d k v)"

definition dict_keys :: "('k, 'v) dict \<Rightarrow> 'k list" where
  "dict_keys d = map fst d"

definition dict_values :: "('k, 'v) dict \<Rightarrow> 'v list" where
  "dict_values d = map snd d"

section \<open>\<^verbatim>\<open>measure-context.py\<close>: the aggregate reporter\<close>

text \<open>
  Python numbers: an \<^verbatim>\<open>int\<close> is an \<open>int\<close>. A \<^verbatim>\<open>float\<close> is a binary64 number of
  IEEE 754 and is kept as the rational number it is: \<open>nearest_double x\<close> is the float
  nearest to the rational \<open>x\<close>, with a significand of 53 bits, a tie going to the even
  significand. The range of the exponent is not modelled (no overflow, no subnormal
  number): a token count is below \<open>2 ^ 63\<close>, so the percentages of the script are 0 or
  lie between \<open>1 / 2000\<close> and \<open>2 ^ 53\<close>.
\<close>

definition round_half_even :: "rat \<Rightarrow> int" where
  "round_half_even x =
     (let f = \<lfloor>x\<rfloor>; d = x - of_int f
      in if d < 1 / 2 then f else if 1 / 2 < d then f + 1 else if even f then f else f + 1)"

function bit_length :: "int \<Rightarrow> int" where
  "bit_length n = (if n \<le> 0 then 0 else 1 + bit_length (n div 2))"
  by pat_completeness auto
termination
  by (relation "measure nat") auto

declare bit_length.simps [simp del]

definition pow2 :: "int \<Rightarrow> rat" where
  "pow2 e = (if 0 \<le> e then 2 ^ nat e else 1 / 2 ^ nat (- e))"

definition nearest_double :: "rat \<Rightarrow> rat" where
  "nearest_double x =
     (if x = 0 then 0
      else (let a = fst (quotient_of \<bar>x\<bar>);
                b = snd (quotient_of \<bar>x\<bar>);
                e0 = bit_length a - bit_length b - 53;
                e = (if 2 ^ 53 \<le> \<bar>x\<bar> / pow2 e0 then e0 + 1 else e0);
                m = round_half_even (\<bar>x\<bar> / pow2 e)
            in sgn x * of_int m * pow2 e))"

text \<open>
  The arithmetic of \<^verbatim>\<open>round(tokens / 200000 * 100, 2)\<close>. \<^verbatim>\<open>/\<close> between two
  \<^verbatim>\<open>int\<close>s gives the float nearest to the quotient (the divisor is 200000 in the
  script, never 0); \<^verbatim>\<open>*\<close> gives the float nearest to the product, the \<^verbatim>\<open>int\<close> 100
  being a float as it is; \<^verbatim>\<open>round(x, 2)\<close> rounds the decimal expansion of the float
  \<open>x\<close> to hundredths, a tie going to the even digit, and returns the float nearest to
  that decimal number.
\<close>

definition int_truediv :: "int \<Rightarrow> int \<Rightarrow> rat" where
  "int_truediv a b = nearest_double (of_int a / of_int b)"

definition float_mul :: "rat \<Rightarrow> rat \<Rightarrow> rat" where
  "float_mul x y = nearest_double (x * y)"

definition round2 :: "rat \<Rightarrow> rat" where
  "round2 x = nearest_double (of_int (round_half_even (x * 100)) / 100)"

text \<open>The dictionaries with fixed keys are records.\<close>

record metric =
  tokens :: int
  lines :: int

record path_metric = metric +
  path :: string

record command_info = path_metric +
  pct_of_200k :: rat

definition commands :: "(string \<times> string) list" where
  "commands =
     [(''execute.md'', ''.claude/commands/tiki/execute.md''),
      (''plan-issue.md'', ''.claude/commands/tiki/plan-issue.md''),
      (''define-requirements.md'', ''.claude/commands/tiki/define-requirements.md''),
      (''research.md'', ''.claude/commands/tiki/research.md''),
      (''debug.md'', ''.claude/commands/tiki/debug.md''),
      (''release-yolo.md'', ''.claude/commands/tiki/release-yolo.md'')]"

fun measure_commands_loop ::
  "os \<Rightarrow> tokenizer \<Rightarrow> (string \<times> string) list \<Rightarrow> (string, command_info) dict
     \<Rightarrow> (string, command_info) dict" where
  "measure_commands_loop fs enc [] results = results"
| "measure_commands_loop fs enc ((name, p) # rest) results =
     (case count_tokens fs enc p of
        (t, l) \<Rightarrow>
          measure_commands_loop fs enc rest
            (dict_set results name
               \<lparr>tokens = t, lines = l, path = p,
                pct_of_200k = round2 (float_mul (int_truediv t 200000) 100)\<rparr>))"

definition measure_commands :: "os \<Rightarrow> tokenizer \<Rightarrow> (string, command_info) dict" where
  "measure_commands fs enc = measure_commands_loop fs enc commands []"

record invocation =
  components :: "(string, int) dict"
  total_tokens :: int
  remaining :: int
  pct_used :: rat

definition measure_execute_invocation :: "os \<Rightarrow> tokenizer \<Rightarrow> invocation" where
  "measure_execute_invocation fs enc =
     (let exec_tokens = fst (count_tokens fs enc ''.claude/commands/tiki/execute.md'');
          claude_tokens = fst (count_tokens fs enc ''CLAUDE.md'');
          comps = [(''claude_code_system_prompt'', 3000),
                   (''execute_md'', exec_tokens),
                   (''claude_md'', claude_tokens),
                   (''plan_file'', 1500),
                   (''prev_summaries'', 500)];
          total = sum_list (dict_values comps)
      in \<lparr>components = comps, total_tokens = total, remaining = 200000 - total,
          pct_used = round2 (float_mul (int_truediv total 200000) 100)\<rparr>)"

definition prompt_dirs :: "string list" where
  "prompt_dirs =
     [''.tiki/prompts/execute'',
      ''.tiki/prompts/plan'',
      ''.tiki/prompts/requirements'',
      ''.tiki/prompts/research'',
      ''.tiki/prompts/debug'',
      ''.tiki/prompts/release'']"

definition endswith :: "string \<Rightarrow> string \<Rightarrow> bool" where
  "endswith s suffix =
     (length suffix \<le> length s \<and> drop (length s - length suffix) s = suffix)"

fun measure_dir_loop ::
  "os \<Rightarrow> tokenizer \<Rightarrow> string \<Rightarrow> string list \<Rightarrow> (string, metric) dict
     \<Rightarrow> (string, metric) dict" where
  "measure_dir_loop fs enc dir_path [] dir_results = dir_results"
| "measure_dir_loop fs enc dir_path (filename # rest) dir_results =
     (if endswith filename ''.md''
      then (case count_tokens fs enc (path_join fs dir_path filename) of
              (t, l) \<Rightarrow>
                measure_dir_loop fs enc dir_path rest
                  (dict_set dir_results filename \<lparr>tokens = t, lines = l\<rparr>))
      else measure_dir_loop fs enc dir_path rest dir_results)"

fun measure_prompt_files_loop ::
  "os \<Rightarrow> tokenizer \<Rightarrow> string list \<Rightarrow> (string, (string, metric) dict) dict
     \<Rightarrow> exn + (string, (string, metric) dict) dict" where
  "measure_prompt_files_loop fs enc [] results = Inr results"
| "measure_prompt_files_loop fs enc (dir_path # rest) results =
     (if path_exists fs dir_path
      then (case listdir fs dir_path of
              Inl e \<Rightarrow> Inl e
            | Inr names \<Rightarrow>
                (let dir_results = measure_dir_loop fs enc dir_path names []
                 in if dir_results \<noteq> []
                    then measure_prompt_files_loop fs enc rest
                           (dict_set results dir_path dir_results)
                    else measure_prompt_files_loop fs enc rest results))
      else measure_prompt_files_loop fs enc rest results)"

definition measure_prompt_files ::
  "os \<Rightarrow> tokenizer \<Rightarrow> exn + (string, (string, metric) dict) dict" where
  "measure_prompt_files fs enc = measure_prompt_files_loop fs enc prompt_dirs []"

record totals =
  all_large_commands_tokens :: int
  all_large_commands_lines :: int

record snapshot =
  data_timestamp :: string
  data_commands :: "(string, command_info) dict"
  data_execute_invocation :: invocation
  data_prompt_files :: "(string, (string, metric) dict) dict"
  data_totals :: totals

text \<open>
  The first part of \<^verbatim>\<open>main\<close>, up to and with \<^verbatim>\<open>data['totals'] = ...\<close>; \<open>now\<close> is
  \<^verbatim>\<open>datetime.now().isoformat()\<close>. An exception of \<^verbatim>\<open>os.listdir\<close> is not handled.
\<close>

definition build_data :: "os \<Rightarrow> tokenizer \<Rightarrow> string \<Rightarrow> exn + snapshot" where
  "build_data fs enc now =
     (let cmds = measure_commands fs enc;
          inv = measure_execute_invocation fs enc
      in case measure_prompt_files fs enc of
           Inl e \<Rightarrow> Inl e
         | Inr pf \<Rightarrow>
             Inr \<lparr>data_timestamp = now,
                  data_commands = cmds,
                  data_execute_invocation = inv,
                  data_prompt_files = pf,
                  data_totals =
                    \<lparr>all_large_commands_tokens = sum_list (map tokens (dict_values cmds)),
                     all_large_commands_lines = sum_list (map lines (dict_values cmds))\<rparr>\<rparr>)"

section \<open>\<^verbatim>\<open>compare-context.py\<close>: baseline store and comparator\<close>

subsection \<open>The loaded baseline\<close>

text \<open>
  \<^verbatim>\<open>json.load\<close> returns a Python value built from \<^verbatim>\<open>None\<close>, booleans, numbers,
  strings, lists and dictionaries with string keys. The parser itself belongs to the
  standard library and is a parameter (\<open>loads\<close>) of what follows; a model of
  it on the text, \<open>json_loads\<close>, comes with the baseline file below.
\<close>

datatype json =
    JNull
  | JBool bool
  | JInt int
  | JFloat rat
  | JStr string
  | JArr "json list"
  | JObj "(string \<times> json) list"

text \<open>
  A float is the rational number it is (there is no NaN and no infinity here); a
  dictionary is the list of its members in order, each key once.
\<close>

text \<open>Truth value of a loaded value, as \<^verbatim>\<open>not baseline\<close> tests it.\<close>

fun py_truthy :: "json \<Rightarrow> bool" where
  "py_truthy JNull = False"
| "py_truthy (JBool b) = b"
| "py_truthy (JInt i) = (i \<noteq> 0)"
| "py_truthy (JFloat r) = (r \<noteq> 0)"
| "py_truthy (JStr s) = (s \<noteq> [])"
| "py_truthy (JArr xs) = (xs \<noteq> [])"
| "py_truthy (JObj d) = (d \<noteq> [])"

text \<open>\<^verbatim>\<open>x[key]\<close> with a string key: only a dictionary can answer, and a missing key raises.\<close>

fun py_getitem :: "json \<Rightarrow> string \<Rightarrow> exn + json" where
  "py_getitem (JObj d) key =
     (case map_of d key of None \<Rightarrow> Inl (KeyError key) | Some v \<Rightarrow> Inr v)"
| "py_getitem v key = Inl TypeError"

text \<open>\<^verbatim>\<open>x.get(key, default)\<close>: only a dictionary has the method.\<close>

fun py_get :: "json \<Rightarrow> string \<Rightarrow> json \<Rightarrow> exn + json" where
  "py_get (JObj d) key dflt =
     (case map_of d key of None \<Rightarrow> Inr dflt | Some v \<Rightarrow> Inr v)"
| "py_get v key dflt = Inl AttributeError"

text \<open>
  \<^verbatim>\<open>x[:10]\<close>: strings and lists can be sliced, everything else raises (for a
  dictionary the exception differs between versions of Python; it is one in all).
\<close>

fun py_slice10 :: "json \<Rightarrow> exn + json" where
  "py_slice10 (JStr s) = Inr (JStr (take 10 s))"
| "py_slice10 (JArr xs) = Inr (JArr (take 10 xs))"
| "py_slice10 v = Inl TypeError"

text \<open>
  A loaded value as an operand of \<^verbatim>\<open>+\<close>, \<^verbatim>\<open>-\<close>, \<^verbatim>\<open>/\<close> and \<^verbatim>\<open>>\<close> next to a
  number: numbers and booleans (which are integers in Python) take part, anything else
  raises \<^verbatim>\<open>TypeError\<close>. The arithmetic of the comparison is that of the rational
  numbers: its quotients are only printed, and the rounding of a float operation is left
  out of them.
\<close>

fun as_num :: "json \<Rightarrow> exn + rat" where
  "as_num (JInt i) = Inr (of_int i)"
| "as_num (JFloat r) = Inr r"
| "as_num (JBool b) = Inr (if b then 1 else 0)"
| "as_num v = Inl TypeError"

subsection \<open>Printed output\<close>

text \<open>
  What \<^verbatim>\<open>print\<close> writes, one item per call. A line of fixed text is kept as text; a
  line that formats computed values is kept as the values it formats.
\<close>

datatype indicator = Improved | Unchanged | Regressed

record delta_row =
  row_name :: string
  baseline_tokens :: rat
  current_tokens :: rat
  change :: rat
  pct_change :: rat
  row_indicator :: indicator

datatype out =
    Text string
  | BaselineDate json
  | CurrentDate string
  | Row delta_row
  | TotalRow rat rat rat rat
  | PromptFile string int int
  | PromptTotal int int
  | MainContext rat rat
  | ContextRemaining rat rat
  | TokensSaved rat
  | Reduction rat
  | Verdict indicator

text \<open>
  A run so far: what was printed, and either the exception that ended it or the value
  it produced.
\<close>

type_synonym 'a io = "out list \<times> (exn + 'a)"

definition io_bind :: "'a io \<Rightarrow> ('a \<Rightarrow> 'b io) \<Rightarrow> 'b io" where
  "io_bind m f =
     (case m of
        (o1, Inl e) \<Rightarrow> (o1, Inl e)
      | (o1, Inr a) \<Rightarrow> (case f a of (o2, r) \<Rightarrow> (o1 @ o2, r)))"

definition io_print :: "out list \<Rightarrow> unit io" where
  "io_print os = (os, Inr ())"

definition io_lift :: "exn + 'a \<Rightarrow> 'a io" where
  "io_lift r = ([], r)"

definition ljust :: "nat \<Rightarrow> string \<Rightarrow> string" where
  "ljust n s = s @ replicate (n - length s) CHR '' ''"

definition rjust :: "nat \<Rightarrow> string \<Rightarrow> string" where
  "rjust n s = replicate (n - length s) CHR '' '' @ s"

definition rule :: "char \<Rightarrow> string" where
  "rule c = replicate 80 c"

subsection \<open>Loading and measuring\<close>

definition baseline_path :: string where
  "baseline_path = ''.tiki/context-baseline.json''"

text \<open>
  \<^verbatim>\<open>
  def load_baseline():
      try:
          with open('.tiki/context-baseline.json', 'r') as f:
              return json.load(f)
      except FileNotFoundError:
          print("ERROR: No baseline found. Run first:")
          print("  python .tiki/scripts/measure-context.py --json > .tiki/context-baseline.json")
          return None
  \<close>
  The result \<open>None\<close> is Python's \<^verbatim>\<open>None\<close> returned by the handler.
\<close>

definition load_baseline_try :: "os \<Rightarrow> (string \<Rightarrow> exn + json) \<Rightarrow> exn + json" where
  "load_baseline_try fs loads =
     (case read_text fs None baseline_path of
        Inl e \<Rightarrow> Inl e
      | Inr text \<Rightarrow> loads text)"

definition load_baseline :: "os \<Rightarrow> (string \<Rightarrow> exn + json) \<Rightarrow> json option io" where
  "load_baseline fs loads =
     (case load_baseline_try fs loads of
        Inl e \<Rightarrow>
          (if e = FileNotFoundError
           then ([Text ''ERROR: No baseline found. Run first:'',
                  Text (''  python .tiki/scripts/measure-context.py --json > ''
                        @ ''.tiki/context-baseline.json'')],
                 Inr None)
           else ([], Inl e))
      | Inr v \<Rightarrow> ([], Inr (Some v)))"

fun measure_current_loop ::
  "os \<Rightarrow> tokenizer \<Rightarrow> (string \<times> string) list \<Rightarrow> (string, metric) dict
     \<Rightarrow> (string, metric) dict" where
  "measure_current_loop fs enc [] results = results"
| "measure_current_loop fs enc ((name, p) # rest) results =
     (case count_tokens fs enc p of
        (t, l) \<Rightarrow>
          measure_current_loop fs enc rest (dict_set results name \<lparr>tokens = t, lines = l\<rparr>))"

definition measure_current :: "os \<Rightarrow> tokenizer \<Rightarrow> (string, metric) dict" where
  "measure_current fs enc = measure_current_loop fs enc commands []"

record prompts =
  p_total_tokens :: int
  p_total_lines :: int
  p_files :: "path_metric list"

fun prompt_dir_loop :: "os \<Rightarrow> tokenizer \<Rightarrow> string \<Rightarrow> string list \<Rightarrow> prompts \<Rightarrow> prompts" where
  "prompt_dir_loop fs enc dir_path [] acc = acc"
| "prompt_dir_loop fs enc dir_path (filename # rest) acc =
     (if endswith filename ''.md''
      then (case count_tokens fs enc (path_join fs dir_path filename) of
              (t, l) \<Rightarrow>
                prompt_dir_loop fs enc dir_path rest
                  \<lparr>p_total_tokens = p_total_tokens acc + t,
                   p_total_lines = p_total_lines acc + l,
                   p_files = p_files acc
                     @ [\<lparr>tokens = t, lines = l, path = path_join fs dir_path filename\<rparr>]\<rparr>)
      else prompt_dir_loop fs enc dir_path rest acc)"

fun prompt_files_loop :: "os \<Rightarrow> tokenizer \<Rightarrow> string list \<Rightarrow> prompts \<Rightarrow> exn + prompts" where
  "prompt_files_loop fs enc [] acc = Inr acc"
| "prompt_files_loop fs enc (dir_path # rest) acc =
     (if path_exists fs dir_path
      then (case listdir fs dir_path of
              Inl e \<Rightarrow> Inl e
            | Inr names \<Rightarrow>
                prompt_files_loop fs enc rest (prompt_dir_loop fs enc dir_path names acc))
      else prompt_files_loop fs enc rest acc)"

text \<open>\<^verbatim>\<open>measure_prompt_files\<close> of \<^verbatim>\<open>compare-context.py\<close> (a flat list with totals).\<close>

definition measure_prompt_totals :: "os \<Rightarrow> tokenizer \<Rightarrow> exn + prompts" where
  "measure_prompt_totals fs enc =
     prompt_files_loop fs enc prompt_dirs
       \<lparr>p_total_tokens = 0, p_total_lines = 0, p_files = []\<rparr>"

subsection \<open>The comparison\<close>

text \<open>
  One pass of the loop over \<^verbatim>\<open>current.items()\<close>:
  \<^verbatim>\<open>
  base = baseline['commands'].get(name, {})
  base_tokens = base.get('tokens', 0)
  curr_tokens = curr['tokens']
  total_baseline += base_tokens
  total_current += curr_tokens
  change = curr_tokens - base_tokens
  pct_change = (change / base_tokens * 100) if base_tokens > 0 else 0
  indicator = [improved] if change < 0 else ([unchanged] if change == 0 else [regressed])
  \<close>
  \<open>make_row\<close> is the arithmetic, \<open>row_step\<close> the lookups before it.
\<close>

definition make_row :: "string \<Rightarrow> rat \<Rightarrow> rat \<Rightarrow> delta_row" where
  "make_row name base_tokens curr_tokens =
     (let ch = curr_tokens - base_tokens
      in \<lparr>row_name = name,
          baseline_tokens = base_tokens,
          current_tokens = curr_tokens,
          change = ch,
          pct_change = (if base_tokens > 0 then ch / base_tokens * 100 else 0),
          row_indicator =
            (if ch < 0 then Improved else if ch = 0 then Unchanged else Regressed)\<rparr>)"

definition row_step :: "json \<Rightarrow> string \<Rightarrow> metric \<Rightarrow> exn + delta_row" where
  "row_step baseline name cur =
     (case py_getitem baseline ''commands'' of
        Inl e \<Rightarrow> Inl e
      | Inr cmds \<Rightarrow>
          (case py_get cmds name (JObj []) of
             Inl e \<Rightarrow> Inl e
           | Inr base \<Rightarrow>
               (case py_get base ''tokens'' (JInt 0) of
                  Inl e \<Rightarrow> Inl e
                | Inr bt \<Rightarrow>
                    (case as_num bt of
                       Inl e \<Rightarrow> Inl e
                     | Inr base_tokens \<Rightarrow>
                         Inr (make_row name base_tokens (of_int (tokens cur)))))))"

text \<open>The loop; the pair is (\<^verbatim>\<open>total_baseline\<close>, \<^verbatim>\<open>total_current\<close>).\<close>

fun rows_loop :: "json \<Rightarrow> (string, metric) dict \<Rightarrow> rat \<times> rat \<Rightarrow> (rat \<times> rat) io" where
  "rows_loop baseline [] acc = ([], Inr acc)"
| "rows_loop baseline ((name, cur) # rest) acc =
     (case row_step baseline name cur of
        Inl e \<Rightarrow> ([], Inl e)
      | Inr row \<Rightarrow>
          (case rows_loop baseline rest
                  (fst acc + baseline_tokens row, snd acc + current_tokens row) of
             (os, r) \<Rightarrow> (Row row # os, r)))"

definition header :: "json \<Rightarrow> string \<Rightarrow> unit io" where
  "header baseline today =
     io_bind (io_print [Text (rule CHR ''=''), Text ''CONTEXT WINDOW USAGE COMPARISON''])
       (\<lambda>_. io_bind
          (io_lift (case py_getitem baseline ''timestamp'' of
                      Inl e \<Rightarrow> Inl e
                    | Inr ts \<Rightarrow> py_slice10 ts))
          (\<lambda>d. io_print
             [BaselineDate d,
              CurrentDate today,
              Text (rule CHR ''=''),
              Text [],
              Text ''COMMAND SIZE CHANGES'',
              Text (rule CHR ''-''),
              Text (ljust 25 ''Command'' @ '' '' @ rjust 12 ''Baseline'' @ '' ''
                    @ rjust 12 ''Current'' @ '' '' @ rjust 12 ''Change'' @ '' ''
                    @ rjust 12 ''% Change''),
              Text (rule CHR ''-'')]))"

definition rows_section :: "json \<Rightarrow> (string, metric) dict \<Rightarrow> unit io" where
  "rows_section baseline current =
     io_bind (rows_loop baseline current (0, 0))
       (\<lambda>acc.
          (let total_baseline = fst acc;
               total_current = snd acc;
               total_change = total_current - total_baseline;
               total_pct = (if total_baseline > 0
                            then total_change / total_baseline * 100 else 0)
           in io_print
                [Text (rule CHR ''-''),
                 TotalRow total_baseline total_current total_change total_pct,
                 Text []]))"

definition prompts_section :: "prompts \<Rightarrow> unit io" where
  "prompts_section ps =
     (if p_files ps \<noteq> []
      then io_print
             ([Text ''EXTRACTED PROMPT FILES (load into sub-agent context)'',
               Text (rule CHR ''-'')]
              @ map (\<lambda>f. PromptFile (path f) (lines f) (tokens f)) (p_files ps)
              @ [Text (rule CHR ''-''),
                 PromptTotal (p_total_lines ps) (p_total_tokens ps),
                 Text []])
      else io_print [])"

text \<open>
  The effective savings, from \<^verbatim>\<open>exec_baseline = baseline['commands']['execute.md']['tokens']\<close>
  to the end of \<^verbatim>\<open>main\<close>.
\<close>

definition exec_baseline_lookup :: "json \<Rightarrow> exn + json" where
  "exec_baseline_lookup baseline =
     (case py_getitem baseline ''commands'' of
        Inl e \<Rightarrow> Inl e
      | Inr cmds \<Rightarrow>
          (case py_getitem cmds ''execute.md'' of
             Inl e \<Rightarrow> Inl e
           | Inr entry \<Rightarrow> py_getitem entry ''tokens''))"

definition exec_current_lookup :: "(string, metric) dict \<Rightarrow> exn + int" where
  "exec_current_lookup current =
     (case map_of current ''execute.md'' of
        None \<Rightarrow> Inl (KeyError ''execute.md'')
      | Some cur \<Rightarrow> Inr (tokens cur))"

definition savings_section :: "json \<Rightarrow> (string, metric) dict \<Rightarrow> unit io" where
  "savings_section baseline current =
     io_bind (io_lift (exec_baseline_lookup baseline))
       (\<lambda>exec_baseline. io_bind (io_lift (exec_current_lookup current))
       (\<lambda>exec_current. io_bind
          (io_print
             [Text ''EFFECTIVE SAVINGS FOR /tiki:execute'',
              Text (rule CHR ''-''),
              Text (ljust 40 ''Metric'' @ '' '' @ rjust 15 ''Before'' @ '' ''
                    @ rjust 15 ''After''),
              Text (rule CHR ''-'')])
       (\<lambda>_. io_bind (io_lift (as_num exec_baseline))
       (\<lambda>eb.
          (let before_total = 3000 + eb + 1115 + 1500 + 500;
               after_total = 3000 + of_int exec_current + 1115 + 1500 + 500;
               savings = before_total - after_total
           in io_bind
                (io_print
                   [MainContext before_total after_total,
                    ContextRemaining (200000 - before_total) (200000 - after_total),
                    Text (rule CHR ''-''),
                    TokensSaved savings])
                (\<lambda>_. io_bind
                   (io_lift (if before_total = 0 then Inl ZeroDivisionError
                             else Inr (savings / before_total * 100)))
                   (\<lambda>reduction. io_print
                      [Reduction reduction,
                       Text [],
                       Verdict (if savings > 0 then Improved
                                else if savings = 0 then Unchanged else Regressed),
                       Text [],
                       Text (rule CHR ''='')])))))))"

text \<open>
  \<^verbatim>\<open>main\<close> of \<^verbatim>\<open>compare-context.py\<close>; \<open>today\<close> is
  \<^verbatim>\<open>datetime.now().strftime("%Y-%m-%d")\<close>.
\<close>

definition compare_main ::
  "os \<Rightarrow> tokenizer \<Rightarrow> (string \<Rightarrow> exn + json) \<Rightarrow> string \<Rightarrow> unit io" where
  "compare_main fs enc loads today =
     io_bind (load_baseline fs loads)
       (\<lambda>loaded.
          (case loaded of
             None \<Rightarrow> io_print []
           | Some baseline \<Rightarrow>
               (if \<not> py_truthy baseline then io_print []
                else
                  (let current = measure_current fs enc
                   in io_bind (io_lift (measure_prompt_totals fs enc))
                        (\<lambda>ps. io_bind (header baseline today)
                        (\<lambda>_. io_bind (rows_section baseline current)
                        (\<lambda>_. io_bind (prompts_section ps)
                        (\<lambda>_. savings_section baseline current))))))))"

text \<open>The rows a run printed.\<close>

fun rows_of :: "out list \<Rightarrow> delta_row list" where
  "rows_of [] = []"
| "rows_of (Row r # os) = r # rows_of os"
| "rows_of (x # os) = rows_of os"

section \<open>The baseline file as text\<close>

text \<open>
  The baseline file is what \<^verbatim>\<open>print(json.dumps(data, indent=2))\<close> wrote and what
  \<^verbatim>\<open>json.load\<close> reads. Both functions belong to the standard library; they are modelled
  here on the text itself, by the rules the library documents: the encoder with
  \<^verbatim>\<open>indent=2\<close> and the default \<^verbatim>\<open>ensure_ascii\<close>, the decoder in its default
  strict mode.

  Three things are outside the model. A character of this model is one of the first
  256 code points, so a \<^verbatim>\<open>\uXXXX\<close> escape above \<^verbatim>\<open>\u00ff\<close> has nothing to
  denote and is refused. The constants \<^verbatim>\<open>NaN\<close>, \<^verbatim>\<open>Infinity\<close> and \<^verbatim>\<open>-Infinity\<close>, which the
  decoder accepts, are no rationals and are refused. The text that \<^verbatim>\<open>float.__repr__\<close>
  gives a float is a parameter \<open>fr\<close> of the encoder.
\<close>

subsection \<open>Characters and white space\<close>

definition dquote :: char where "dquote = CHR 0x22"
definition backslash :: char where "backslash = CHR 0x5C"

definition is_ws :: "char \<Rightarrow> bool" where
  "is_ws c = (c = CHR '' '' \<or> c = CHR 0x09 \<or> c = CHR 0x0A \<or> c = CHR 0x0D)"

definition skip_ws :: "string \<Rightarrow> string" where
  "skip_ws s = dropWhile is_ws s"

subsection \<open>Integers\<close>

text \<open>\<^verbatim>\<open>int.__repr__\<close>: decimal digits, a minus sign for a negative number.\<close>

definition is_digit :: "char \<Rightarrow> bool" where
  "is_digit c = (48 \<le> (of_char c :: nat) \<and> (of_char c :: nat) \<le> 57)"

definition digit_char :: "nat \<Rightarrow> char" where
  "digit_char n = char_of (48 + n)"

definition digits_value :: "string \<Rightarrow> nat" where
  "digits_value s = foldl (\<lambda>a c. 10 * a + (of_char c - 48)) 0 s"

function show_nat :: "nat \<Rightarrow> string" where
  "show_nat n = (if n < 10 then [digit_char n] else show_nat (n div 10) @ [digit_char (n mod 10)])"
  by pat_completeness auto
termination
  by (relation "measure id") auto

declare show_nat.simps [simp del]

definition show_int :: "int \<Rightarrow> string" where
  "show_int i = (if i < 0 then CHR ''-'' # show_nat (nat (- i)) else show_nat (nat i))"

subsection \<open>Strings\<close>

text \<open>
  The encoder writes a string between double quotes; it escapes the quote, the
  backslash, the five control characters with a short form, and as \<^verbatim>\<open>\u00xx\<close> every
  other character outside the range from space to tilde. The decoder reads up to the
  closing quote; it knows the same escapes and \<^verbatim>\<open>\/\<close>, and refuses a bare control
  character.
\<close>

definition hex_char :: "nat \<Rightarrow> char" where
  "hex_char n = (if n < 10 then char_of (48 + n) else char_of (87 + n))"

definition hex_value :: "char \<Rightarrow> nat option" where
  "hex_value c =
     (let n = (of_char c :: nat)
      in if 48 \<le> n \<and> n \<le> 57 then Some (n - 48)
         else if 97 \<le> n \<and> n \<le> 102 then Some (n - 87)
         else if 65 \<le> n \<and> n \<le> 70 then Some (n - 55)
         else None)"

definition escape_char :: "char \<Rightarrow> string" where
  "escape_char c =
     (if c = dquote then [backslash, dquote]
      else if c = backslash then [backslash, backslash]
      else if c = CHR 0x0A then [backslash, CHR ''n'']
      else if c = CHR 0x0D then [backslash, CHR ''r'']
      else if c = CHR 0x09 then [backslash, CHR ''t'']
      else if c = CHR 0x08 then [backslash, CHR ''b'']
      else if c = CHR 0x0C then [backslash, CHR ''f'']
      else if (of_char c :: nat) < 32 \<or> 126 < (of_char c :: nat)
        then [backslash, CHR ''u'', CHR ''0'', CHR ''0'',
              hex_char (of_char c div 16), hex_char (of_char c mod 16)]
      else [c])"

definition show_string :: "string \<Rightarrow> string" where
  "show_string s = dquote # concat (map escape_char s) @ [dquote]"

definition unescape :: "char \<Rightarrow> char option" where
  "unescape e =
     (if e = dquote then Some dquote
      else if e = backslash then Some backslash
      else if e = CHR ''/'' then Some CHR ''/''
      else if e = CHR ''b'' then Some (CHR 0x08)
      else if e = CHR ''f'' then Some (CHR 0x0C)
      else if e = CHR ''n'' then Some (CHR 0x0A)
      else if e = CHR ''r'' then Some (CHR 0x0D)
      else if e = CHR ''t'' then Some (CHR 0x09)
      else None)"

definition hex4 :: "string \<Rightarrow> nat option" where
  "hex4 s =
     (case map hex_value (take 4 s) of
        [Some a, Some b, Some c, Some d] \<Rightarrow> Some (((a * 16 + b) * 16 + c) * 16 + d)
      | _ \<Rightarrow> None)"

fun scan_string :: "string \<Rightarrow> exn + (string \<times> string)" where
  "scan_string [] = Inl JSONDecodeError"
| "scan_string (c # s) =
     (if c = dquote then Inr ([], s)
      else if c = backslash then
        (case s of
           [] \<Rightarrow> Inl JSONDecodeError
         | e # t \<Rightarrow>
             (if e = CHR ''u'' then
                (case hex4 t of
                   None \<Rightarrow> Inl JSONDecodeError
                 | Some n \<Rightarrow>
                     (if n < 256 then
                        (case scan_string (drop 4 t) of
                           Inl x \<Rightarrow> Inl x
                         | Inr (str, r) \<Rightarrow> Inr (char_of n # str, r))
                      else Inl JSONDecodeError))
              else
                (case unescape e of
                   None \<Rightarrow> Inl JSONDecodeError
                 | Some ch \<Rightarrow>
                     (case scan_string t of
                        Inl x \<Rightarrow> Inl x
                      | Inr (str, r) \<Rightarrow> Inr (ch # str, r)))))
      else if (of_char c :: nat) < 32 then Inl JSONDecodeError
      else (case scan_string s of
              Inl x \<Rightarrow> Inl x
            | Inr (str, r) \<Rightarrow> Inr (c # str, r)))"


subsection \<open>Numbers\<close>

text \<open>
  The decoder reads the longest text that matches
  \<^verbatim>\<open>(-?(?:0|[1-9][0-9]*))(\.[0-9]+)?([eE][-+]?[0-9]+)?\<close>. Without fraction and exponent
  it is an \<^verbatim>\<open>int\<close>, else the \<^verbatim>\<open>float\<close> of the text: the float nearest to the
  number that the decimal text denotes (\<open>float_of_text\<close>).
\<close>

definition lex_int :: "string \<Rightarrow> (string \<times> string) option" where
  "lex_int s =
     (let sgn = (if s \<noteq> [] \<and> hd s = CHR ''-'' then ''-'' else []);
          s1 = drop (length sgn) s
      in case s1 of
           [] \<Rightarrow> None
         | c # t \<Rightarrow>
             (if c = CHR ''0'' then Some (sgn @ ''0'', t)
              else if is_digit c then Some (sgn @ takeWhile is_digit s1, dropWhile is_digit s1)
              else None))"

definition lex_frac :: "string \<Rightarrow> string \<times> string" where
  "lex_frac s =
     (case s of
        c # d # t \<Rightarrow>
          (if c = CHR ''.'' \<and> is_digit d
           then (takeWhile is_digit (d # t), dropWhile is_digit (d # t))
           else ([], s))
      | _ \<Rightarrow> ([], s))"

definition lex_exp :: "string \<Rightarrow> string \<times> string" where
  "lex_exp s =
     (case s of
        [] \<Rightarrow> ([], s)
      | c # t \<Rightarrow>
          (if c = CHR ''e'' \<or> c = CHR ''E'' then
             (let sgn = (if t \<noteq> [] \<and> (hd t = CHR ''+'' \<or> hd t = CHR ''-'') then [hd t] else []);
                  t1 = drop (length sgn) t
              in if t1 \<noteq> [] \<and> is_digit (hd t1)
                 then (sgn @ takeWhile is_digit t1, dropWhile is_digit t1)
                 else ([], s))
           else ([], s)))"

definition int_of_text :: "string \<Rightarrow> int" where
  "int_of_text s =
     (if s \<noteq> [] \<and> hd s = CHR ''-'' then - int (digits_value (tl s)) else int (digits_value s))"

definition float_of_text :: "string \<Rightarrow> string \<Rightarrow> string \<Rightarrow> rat" where
  "float_of_text itxt ftxt etxt =
     (let neg = (itxt \<noteq> [] \<and> hd itxt = CHR ''-'');
          ipart = digits_value (if neg then tl itxt else itxt);
          m = of_nat ipart + of_nat (digits_value ftxt) / 10 ^ length ftxt;
          e = (if etxt = [] then 0 else int_of_text (if hd etxt = CHR ''+'' then tl etxt else etxt));
          v = (if 0 \<le> e then m * 10 ^ nat e else m / 10 ^ nat (- e))
      in if neg then - v else v)"

definition parse_number :: "string \<Rightarrow> exn + (json \<times> string)" where
  "parse_number s =
     (case lex_int s of
        None \<Rightarrow> Inl JSONDecodeError
      | Some (itxt, r1) \<Rightarrow>
          (case lex_frac r1 of
             (ftxt, r2) \<Rightarrow>
               (case lex_exp r2 of
                  (etxt, r3) \<Rightarrow>
                    (if ftxt = [] \<and> etxt = [] then Inr (JInt (int_of_text itxt), r3)
                     else Inr (JFloat (nearest_double (float_of_text itxt ftxt etxt)), r3)))))"


subsection \<open>Values\<close>

text \<open>
  The decoder proper. The first argument bounds the number of values, members and
  elements still to be read, and a bound used up shows as \<^verbatim>\<open>RecursionError\<close>;
  \<open>json_loads\<close> supplies a bound that no text uses up (\<open>json_loads_bound\<close> below).
  The limit that Python itself puts on the depth of nesting is not modelled.
  A dictionary is built from its members in order, a repeated key keeping its place and
  taking the later value.
\<close>

fun parse_value :: "nat \<Rightarrow> string \<Rightarrow> exn + (json \<times> string)"
  and parse_members ::
    "nat \<Rightarrow> (string \<times> json) list \<Rightarrow> string \<Rightarrow> exn + ((string \<times> json) list \<times> string)"
  and parse_elements :: "nat \<Rightarrow> json list \<Rightarrow> string \<Rightarrow> exn + (json list \<times> string)"
where
  "parse_value 0 s = Inl RecursionError"
| "parse_value (Suc n) s =
     (case s of
        [] \<Rightarrow> Inl JSONDecodeError
      | c # t \<Rightarrow>
          (if c = dquote then
             (case scan_string t of
                Inl e \<Rightarrow> Inl e
              | Inr (str, r) \<Rightarrow> Inr (JStr str, r))
           else if c = CHR ''{'' then
             (case skip_ws t of
                [] \<Rightarrow> Inl JSONDecodeError
              | d # t2 \<Rightarrow>
                  (if d = CHR ''}'' then Inr (JObj [], t2)
                   else if d = dquote then
                     (case parse_members n [] t2 of
                        Inl e \<Rightarrow> Inl e
                      | Inr (kvs, r) \<Rightarrow> Inr (JObj kvs, r))
                   else Inl JSONDecodeError))
           else if c = CHR ''['' then
             (case skip_ws t of
                [] \<Rightarrow> Inl JSONDecodeError
              | d # t2 \<Rightarrow>
                  (if d = CHR '']'' then Inr (JArr [], t2)
                   else
                     (case parse_elements n [] (d # t2) of
                        Inl e \<Rightarrow> Inl e
                      | Inr (xs, r) \<Rightarrow> Inr (JArr xs, r))))
           else if take 4 s = ''null'' then Inr (JNull, drop 4 s)
           else if take 4 s = ''true'' then Inr (JBool True, drop 4 s)
           else if take 5 s = ''false'' then Inr (JBool False, drop 5 s)
           else parse_number s))"
| "parse_members 0 acc s = Inl RecursionError"
| "parse_members (Suc n) acc s =
     (case scan_string s of
        Inl e \<Rightarrow> Inl e
      | Inr (key, r1) \<Rightarrow>
          (case skip_ws r1 of
             [] \<Rightarrow> Inl JSONDecodeError
           | c # r2 \<Rightarrow>
               (if c = CHR '':'' then
                  (case parse_value n (skip_ws r2) of
                     Inl e \<Rightarrow> Inl e
                   | Inr (v, r3) \<Rightarrow>
                       (case skip_ws r3 of
                          [] \<Rightarrow> Inl JSONDecodeError
                        | d # r4 \<Rightarrow>
                            (if d = CHR ''}'' then Inr (dict_set acc key v, r4)
                             else if d = CHR '','' then
                               (case skip_ws r4 of
                                  [] \<Rightarrow> Inl JSONDecodeError
                                | q # r5 \<Rightarrow>
                                    (if q = dquote
                                     then parse_members n (dict_set acc key v) r5
                                     else Inl JSONDecodeError))
                             else Inl JSONDecodeError)))
                else Inl JSONDecodeError)))"
| "parse_elements 0 acc s = Inl RecursionError"
| "parse_elements (Suc n) acc s =
     (case parse_value n s of
        Inl e \<Rightarrow> Inl e
      | Inr (v, r1) \<Rightarrow>
          (case skip_ws r1 of
             [] \<Rightarrow> Inl JSONDecodeError
           | d # r2 \<Rightarrow>
               (if d = CHR '']'' then Inr (acc @ [v], r2)
                else if d = CHR '','' then parse_elements n (acc @ [v]) (skip_ws r2)
                else Inl JSONDecodeError)))"

definition json_loads :: "string \<Rightarrow> exn + json" where
  "json_loads s =
     (case parse_value (Suc (2 * length s)) (skip_ws s) of
        Inl e \<Rightarrow> Inl e
      | Inr (v, r) \<Rightarrow> (if skip_ws r = [] then Inr v else Inl JSONDecodeError))"

subsection \<open>The encoder with \<^verbatim>\<open>indent=2\<close>\<close>

text \<open>
  An empty list or dictionary is \<^verbatim>\<open>[]\<close> or \<^verbatim>\<open>{}\<close>. Otherwise every element or member
  is on a line of its own, indented by two spaces per level, with \<^verbatim>\<open>,\<close> at the end of
  all lines but the last, and \<^verbatim>\<open>: \<close> between a key and its value.
\<close>

definition nl :: "nat \<Rightarrow> string" where
  "nl level = newline # replicate (2 * level) CHR '' ''"

fun str_join :: "string \<Rightarrow> string list \<Rightarrow> string" where
  "str_join sep [] = []"
| "str_join sep [x] = x"
| "str_join sep (x # y # ys) = x @ sep @ str_join sep (y # ys)"

fun dumps_at :: "(rat \<Rightarrow> string) \<Rightarrow> nat \<Rightarrow> json \<Rightarrow> string" where
  "dumps_at fr l JNull = ''null''"
| "dumps_at fr l (JBool b) = (if b then ''true'' else ''false'')"
| "dumps_at fr l (JInt i) = show_int i"
| "dumps_at fr l (JFloat r) = fr r"
| "dumps_at fr l (JStr s) = show_string s"
| "dumps_at fr l (JArr xs) =
     (if xs = [] then ''[]''
      else ''['' @ nl (Suc l)
           @ str_join ('','' @ nl (Suc l)) (map (dumps_at fr (Suc l)) xs)
           @ nl l @ '']'')"
| "dumps_at fr l (JObj kvs) =
     (if kvs = [] then ''{}''
      else ''{'' @ nl (Suc l)
           @ str_join ('','' @ nl (Suc l))
               (map (\<lambda>kv. show_string (fst kv) @ '': '' @ dumps_at fr (Suc l) (snd kv)) kvs)
           @ nl l @ ''}'')"

definition json_dumps :: "(rat \<Rightarrow> string) \<Rightarrow> json \<Rightarrow> string" where
  "json_dumps fr v = dumps_at fr 0 v"

subsection \<open>The snapshot as \<^verbatim>\<open>json.dumps\<close> sees it\<close>

text \<open>
  The records of a snapshot are Python dictionaries; \<open>to_json\<close> gives the dictionary
  \<^verbatim>\<open>data\<close> of \<^verbatim>\<open>main\<close> with its keys in the order of the source. With \<^verbatim>\<open>--json\<close>,
  \<^verbatim>\<open>main\<close> prints the encoded \<^verbatim>\<open>data\<close> (\<^verbatim>\<open>print\<close> ends the line) and returns;
  \<open>with_baseline\<close> is the file system once that output is stored as the baseline file.
\<close>

definition metric_json :: "metric \<Rightarrow> json" where
  "metric_json m = JObj [(''tokens'', JInt (tokens m)), (''lines'', JInt (lines m))]"

definition command_json :: "command_info \<Rightarrow> json" where
  "command_json c =
     JObj [(''path'', JStr (path c)),
           (''tokens'', JInt (tokens c)),
           (''lines'', JInt (lines c)),
           (''pct_of_200k'', JFloat (pct_of_200k c))]"

definition invocation_json :: "invocation \<Rightarrow> json" where
  "invocation_json i =
     JObj [(''components'', JObj (map (\<lambda>kv. (fst kv, JInt (snd kv))) (components i))),
           (''total_tokens'', JInt (total_tokens i)),
           (''remaining'', JInt (remaining i)),
           (''pct_used'', JFloat (pct_used i))]"

definition to_json :: "snapshot \<Rightarrow> json" where
  "to_json d =
     JObj [(''timestamp'', JStr (data_timestamp d)),
           (''commands'', JObj (map (\<lambda>kv. (fst kv, command_json (snd kv))) (data_commands d))),
           (''execute_invocation'', invocation_json (data_execute_invocation d)),
           (''prompt_files'',
            JObj (map (\<lambda>kv. (fst kv, JObj (map (\<lambda>fm. (fst fm, metric_json (snd fm))) (snd kv))))
                   (data_prompt_files d))),
           (''totals'',
            JObj [(''all_large_commands_tokens'', JInt (all_large_commands_tokens (data_totals d))),
                  (''all_large_commands_lines'', JInt (all_large_commands_lines (data_totals d)))])]"

definition snapshot_floats :: "snapshot \<Rightarrow> rat list" where
  "snapshot_floats d =
     map pct_of_200k (dict_values (data_commands d)) @ [pct_used (data_execute_invocation d)]"

definition json_output :: "(rat \<Rightarrow> string) \<Rightarrow> snapshot \<Rightarrow> string" where
  "json_output fr d = json_dumps fr (to_json d) @ [newline]"

definition measure_main_json ::
  "os \<Rightarrow> tokenizer \<Rightarrow> string \<Rightarrow> (rat \<Rightarrow> string) \<Rightarrow> exn + string" where
  "measure_main_json fs enc now fr =
     (case build_data fs enc now of
        Inl e \<Rightarrow> Inl e
      | Inr d \<Rightarrow> Inr (json_output fr d))"

definition with_baseline :: "os \<Rightarrow> string \<Rightarrow> os" where
  "with_baseline fs text =
     fs\<lparr>read_text := (\<lambda>encoding p. if p = baseline_path then Inr text
                                    else read_text fs encoding p)\<rparr>"


section \<open>Notions used in the statements\<close>

text \<open>The entry that \<^verbatim>\<open>measure_commands\<close> stores for one pair of the command list.\<close>

definition command_entry :: "os \<Rightarrow> tokenizer \<Rightarrow> string \<times> string \<Rightarrow> string \<times> command_info" where
  "command_entry fs enc np =
     (fst np,
      \<lparr>tokens = fst (count_tokens fs enc (snd np)), lines = snd (count_tokens fs enc (snd np)),
       path = snd np,
       pct_of_200k =
         round2 (float_mul (int_truediv (fst (count_tokens fs enc (snd np))) 200000) 100)\<rparr>)"

text \<open>
  A directory that exists and whose listing names at least one file ending in
  \<^verbatim>\<open>.md\<close>.
\<close>

definition has_markdown :: "os \<Rightarrow> string \<Rightarrow> bool" where
  "has_markdown fs d =
     (path_exists fs d \<and> (\<exists>names. listdir fs d = Inr names \<and> (\<exists>f\<in>set names. endswith f ''.md'')))"

text \<open>The totals a run printed, and a run that printed neither a row nor a total.\<close>

fun totals_of :: "out list \<Rightarrow> (rat \<times> rat) list" where
  "totals_of [] = []"
| "totals_of (TotalRow tb tc ch pct # os) = (tb, tc) # totals_of os"
| "totals_of (x # os) = totals_of os"

definition quiet :: "out list \<Rightarrow> bool" where
  "quiet os = (rows_of os = [] \<and> totals_of os = [])"

text \<open>
  For the round trip through the baseline file: a text after a value \<open>stops\<close> when it
  is empty or begins with a comma or a newline; \<open>float_ok fr r\<close> says that the text
  \<open>fr r\<close> is read back as the float \<open>r\<close>; in a well-formed value every float is so
  and no dictionary repeats a key; \<open>fuel\<close> is what the decoder needs for a value.
\<close>

definition stops :: "string \<Rightarrow> bool" where
  "stops rest = (rest = [] \<or> hd rest = CHR '','' \<or> hd rest = newline)"

definition value_start :: "char \<Rightarrow> bool" where
  "value_start c =
     (c = dquote \<or> c = CHR ''{'' \<or> c = CHR ''['' \<or> c = CHR ''n'' \<or> c = CHR ''t''
      \<or> c = CHR ''f'' \<or> c = CHR ''-'' \<or> is_digit c)"

definition float_ok :: "(rat \<Rightarrow> string) \<Rightarrow> rat \<Rightarrow> bool" where
  "float_ok fr r = (\<forall>rest. stops rest \<longrightarrow> parse_number (fr r @ rest) = Inr (JFloat r, rest))"

fun wf_json :: "(rat \<Rightarrow> string) \<Rightarrow> json \<Rightarrow> bool" where
  "wf_json fr (JFloat r) = float_ok fr r"
| "wf_json fr (JArr xs) = (\<forall>x\<in>set xs. wf_json fr x)"
| "wf_json fr (JObj kvs) = (distinct (map fst kvs) \<and> (\<forall>kv\<in>set kvs. wf_json fr (snd kv)))"
| "wf_json fr v = True"

fun fuel :: "json \<Rightarrow> nat" where
  "fuel (JArr xs) = Suc (sum_list (map (\<lambda>x. Suc (fuel x)) xs))"
| "fuel (JObj kvs) = Suc (sum_list (map (\<lambda>kv. Suc (fuel (snd kv))) kvs))"
| "fuel v = Suc 0"

definition member_text :: "(rat \<Rightarrow> string) \<Rightarrow> nat \<Rightarrow> string \<times> json \<Rightarrow> string" where
  "member_text fr l kv = show_string (fst kv) @ '': '' @ dumps_at fr (Suc l) (snd kv)"


section \<open>Concrete inputs\<close>

text \<open>
  A small working tree: the command file \<^verbatim>\<open>execute.md\<close> with three lines of text, one
  prompt directory holding a markdown file and a text file, one prompt directory holding
  no markdown file, a file of notes that quotes a special token, and no baseline file.
\<close>

definition tree_read :: "string option \<Rightarrow> string \<Rightarrow> exn + string" where
  "tree_read encoding p =
     (if p = ''.claude/commands/tiki/execute.md'' then Inr (''run'' @ [newline] @ ''all'' @ [newline])
      else if p = ''.tiki/prompts/execute/intro.md'' then Inr ''hello''
      else if p = ''notes.md'' then Inr ''<|endoftext|>''
      else if p = ''.tiki/prompts'' then Inl IsADirectoryError
      else Inl FileNotFoundError)"

definition tree_listdir :: "string \<Rightarrow> exn + string list" where
  "tree_listdir p =
     (if p = ''.tiki/prompts/execute'' then Inr [''intro.md'', ''notes.txt'']
      else if p = ''.tiki/prompts/plan'' then Inr [''readme.txt'']
      else Inl FileNotFoundError)"

definition tree :: os where
  "tree =
     \<lparr>read_text = tree_read,
      path_exists = (\<lambda>p. p = ''.tiki/prompts/execute'' \<or> p = ''.tiki/prompts/plan''),
      listdir = tree_listdir,
      path_join = (\<lambda>a b. a @ ''/'' @ b)\<rparr>"

text \<open>The same tree with a baseline file in it (its text is opaque to the model).\<close>

definition tree_with_baseline :: os where
  "tree_with_baseline =
     tree\<lparr>read_text :=
            (\<lambda>encoding p. if p = baseline_path then Inr ''{}'' else tree_read encoding p)\<rparr>"

text \<open>A tokenizer that makes one token of every character and never raises.\<close>

definition char_tokenizer :: tokenizer where
  "char_tokenizer s = Inr (map of_char s)"

text \<open>
  A tokenizer that refuses a text in which the special token \<^verbatim>\<open><|endoftext|>\<close> occurs,
  as the \<^verbatim>\<open>encode\<close> of the tokenizer library does when it is called with a text only.
\<close>

fun startswith :: "string \<Rightarrow> string \<Rightarrow> bool" where
  "startswith s [] = True"
| "startswith [] (p # ps) = False"
| "startswith (x # xs) (p # ps) = (x = p \<and> startswith xs ps)"

fun contains_text :: "string \<Rightarrow> string \<Rightarrow> bool" where
  "contains_text [] t = (t = [])"
| "contains_text (x # xs) t = (startswith (x # xs) t \<or> contains_text xs t)"

definition strict_tokenizer :: tokenizer where
  "strict_tokenizer s =
     (if contains_text s ''<|endoftext|>'' then Inl ValueError else Inr (map of_char s))"

text \<open>
  Two loaded baselines: one that records \<^verbatim>\<open>execute.md\<close> at 10000 tokens, and one
  written before \<^verbatim>\<open>execute.md\<close> was tracked, with \<^verbatim>\<open>plan-issue.md\<close> only.
\<close>

definition baseline_10000 :: json where
  "baseline_10000 =
     JObj [(''timestamp'', JStr ''2025-01-15T10:30:00.000000''),
           (''commands'',
            JObj [(''execute.md'',
                   JObj [(''path'', JStr ''.claude/commands/tiki/execute.md''),
                         (''tokens'', JInt 10000),
                         (''lines'', JInt 900),
                         (''pct_of_200k'', JFloat 5)])])]"

definition baseline_without_execute :: json where
  "baseline_without_execute =
     JObj [(''timestamp'', JStr ''2025-01-15T10:30:00.000000''),
           (''commands'',
            JObj [(''plan-issue.md'',
                   JObj [(''path'', JStr ''.claude/commands/tiki/plan-issue.md''),
                         (''tokens'', JInt 4000),
                         (''lines'', JInt 300),
                         (''pct_of_200k'', JFloat 2)])])]"

text \<open>A parser that answers every text with a given value.\<close>

definition fixed_parser :: "json \<Rightarrow> string \<Rightarrow> exn + json" where
  "fixed_parser v text = Inr v"

text \<open>A tokenizer for which every text has 7000 tokens.\<close>

definition flat_tokenizer :: tokenizer where
  "flat_tokenizer s = Inr (replicate 7000 0)"

text \<open>
  A baseline written while \<^verbatim>\<open>execute.md\<close> could not be read: it is recorded with zero
  tokens and zero lines.
\<close>

definition baseline_zero :: json where
  "baseline_zero =
     JObj [(''timestamp'', JStr ''2025-01-15T10:30:00.000000''),
           (''commands'',
            JObj [(''execute.md'',
                   JObj [(''path'', JStr ''.claude/commands/tiki/execute.md''),
                         (''tokens'', JInt 0),
                         (''lines'', JInt 0),
                         (''pct_of_200k'', JFloat 0)])])]"

text \<open>
  What the comparison prints for the example tree with \<^verbatim>\<open>execute.md\<close> at 7000 tokens
  against the baseline that records it at 10000 tokens.
\<close>

definition example_report :: "out list" where
  "example_report =
     [Text (rule CHR ''=''),
      Text ''CONTEXT WINDOW USAGE COMPARISON'',
      BaselineDate (JStr ''2025-01-15''),
      CurrentDate ''2025-02-01'',
      Text (rule CHR ''=''),
      Text [],
      Text ''COMMAND SIZE CHANGES'',
      Text (rule CHR ''-''),
      Text (ljust 25 ''Command'' @ '' '' @ rjust 12 ''Baseline'' @ '' ''
            @ rjust 12 ''Current'' @ '' '' @ rjust 12 ''Change'' @ '' ''
            @ rjust 12 ''% Change''),
      Text (rule CHR ''-''),
      Row (make_row ''execute.md'' 10000 7000),
      Row (make_row ''plan-issue.md'' 0 0),
      Row (make_row ''define-requirements.md'' 0 0),
      Row (make_row ''research.md'' 0 0),
      Row (make_row ''debug.md'' 0 0),
      Row (make_row ''release-yolo.md'' 0 0),
      Text (rule CHR ''-''),
      TotalRow 10000 7000 (- 3000) (- 30),
      Text [],
      Text ''EXTRACTED PROMPT FILES (load into sub-agent context)'',
      Text (rule CHR ''-''),
      PromptFile ''.tiki/prompts/execute/intro.md'' 1 7000,
      Text (rule CHR ''-''),
      PromptTotal 1 7000,
      Text [],
      Text ''EFFECTIVE SAVINGS FOR /tiki:execute'',
      Text (rule CHR ''-''),
      Text (ljust 40 ''Metric'' @ '' '' @ rjust 15 ''Before'' @ '' '' @ rjust 15 ''After''),
      Text (rule CHR ''-''),
      MainContext 16115 13115,
      ContextRemaining 183885 186885,
      Text (rule CHR ''-''),
      TokensSaved 3000,
      Reduction (60000 / 3223),
      Text [],
      Verdict Improved,
      Text [],
      Text (rule CHR ''='')]"

text \<open>
  What the comparison prints for the same tree against the baseline without
  \<^verbatim>\<open>execute.md\<close>, up to the exception.
\<close>

definition partial_report :: "out list" where
  "partial_report =
     [Text (rule CHR ''=''),
      Text ''CONTEXT WINDOW USAGE COMPARISON'',
      BaselineDate (JStr ''2025-01-15''),
      CurrentDate ''2025-02-01'',
      Text (rule CHR ''=''),
      Text [],
      Text ''COMMAND SIZE CHANGES'',
      Text (rule CHR ''-''),
      Text (ljust 25 ''Command'' @ '' '' @ rjust 12 ''Baseline'' @ '' ''
            @ rjust 12 ''Current'' @ '' '' @ rjust 12 ''Change'' @ '' ''
            @ rjust 12 ''% Change''),
      Text (rule CHR ''-''),
      Row (make_row ''execute.md'' 0 7000),
      Row (make_row ''plan-issue.md'' 4000 0),
      Row (make_row ''define-requirements.md'' 0 0),
      Row (make_row ''research.md'' 0 0),
      Row (make_row ''debug.md'' 0 0),
      Row (make_row ''release-yolo.md'' 0 0),
      Text (rule CHR ''-''),
      TotalRow 4000 7000 3000 75,
      Text [],
      Text ''EXTRACTED PROMPT FILES (load into sub-agent context)'',
      Text (rule CHR ''-''),
      PromptFile ''.tiki/prompts/execute/intro.md'' 1 7000,
      Text (rule CHR ''-''),
      PromptTotal 1 7000,
      Text []]"

text \<open>
  The text of a float that is nearest to a number of hundredths, as \<^verbatim>\<open>float.__repr__\<close>
  gives it for the rounded percentages of a snapshot: \<^verbatim>\<open>0.0\<close>, \<^verbatim>\<open>2.5\<close>, \<^verbatim>\<open>12.34\<close>.
\<close>

definition repr_hundredths :: "rat \<Rightarrow> string" where
  "repr_hundredths r =
     (let k = round_half_even (r * 100);
          a = nat \<bar>k\<bar> div 100;
          b = nat \<bar>k\<bar> mod 100
      in (if k < 0 then ''-'' else []) @ show_nat a @ ''.''
         @ (if b mod 10 = 0 then [digit_char (b div 10)]
            else [digit_char (b div 10), digit_char (b mod 10)]))"



text \<open>What \<^verbatim>\<open>load_baseline\<close> prints when there is no baseline file.\<close>

definition guidance :: "out list" where
  "guidance =
     [Text ''ERROR: No baseline found. Run first:'',
      Text ''  python .tiki/scripts/measure-context.py --json > .tiki/context-baseline.json'']"

text \<open>The effective-savings part of a report with 16115 tokens before and 13115 after.\<close>

definition savings_report :: "out list" where
  "savings_report =
     [Text ''EFFECTIVE SAVINGS FOR /tiki:execute'',
      Text (rule CHR ''-''),
      Text (ljust 40 ''Metric'' @ '' '' @ rjust 15 ''Before'' @ '' '' @ rjust 15 ''After''),
      Text (rule CHR ''-''),
      MainContext 16115 13115,
      ContextRemaining 183885 186885,
      Text (rule CHR ''-''),
      TokensSaved 3000,
      Reduction (60000 / 3223),
      Text [],
      Verdict Improved,
      Text [],
      Text (rule CHR ''='')]"

section \<open>Properties of the file metrics collector\<close>

lemma split_py_nonempty: "split_py sep s \<noteq> []"
  by (induction s) (auto simp: Let_def)

lemma length_split_py: "length (split_py sep s) = 1 + count_list s sep"
proof (induction s)
  case Nil
  show ?case by simp
next
  case (Cons x xs)
  have "length (tl (split_py sep xs)) = length (split_py sep xs) - 1"
    by simp
  moreover have "length (split_py sep xs) \<noteq> 0"
    using split_py_nonempty [of sep xs] by simp
  ultimately show ?case
    using Cons.IH by (simp add: Let_def)
qed

lemma count_tokens_nonneg: "0 \<le> fst (count_tokens fs enc p) \<and> 0 \<le> snd (count_tokens fs enc p)"
  by (auto simp: count_tokens_def count_tokens_try_def split: sum.splits)

text \<open>
  Claim C2. When the file at a path cannot be read as text, whatever the exception
  (missing file, decoding error, permission error, ...), \<open>count_tokens\<close> returns zero
  tokens and zero lines. The result is a plain pair: the handler leaves no exception
  to the caller.
\<close>

theorem count_tokens_unreadable:
  "read_text fs (Some ''utf-8'') p = Inl e \<Longrightarrow> count_tokens fs enc p = (0, 0)"
  by (simp add: count_tokens_def count_tokens_try_def)

theorem count_tokens_unreadable_witness:
  "read_text tree (Some ''utf-8'') ''.claude/commands/tiki/debug.md'' = Inl FileNotFoundError
   \<and> read_text tree (Some ''utf-8'') ''.tiki/prompts'' = Inl IsADirectoryError
   \<and> count_tokens tree char_tokenizer ''.claude/commands/tiki/debug.md'' = (0, 0)
   \<and> count_tokens tree char_tokenizer ''.tiki/prompts'' = (0, 0)"
proof -
  have a: "read_text tree (Some ''utf-8'') ''.claude/commands/tiki/debug.md''
             = Inl FileNotFoundError"
    by (simp add: tree_def tree_read_def)
  have b: "read_text tree (Some ''utf-8'') ''.tiki/prompts'' = Inl IsADirectoryError"
    by (simp add: tree_def tree_read_def)
  show ?thesis
    using a b count_tokens_unreadable [OF a, of char_tokenizer]
      count_tokens_unreadable [OF b, of char_tokenizer]
    by simp
qed

text \<open>
  Claim C9 against the code. The \<^verbatim>\<open>try\<close> block holds the call of the tokenizer next
  to the reading of the file, and the handler returns \<^verbatim>\<open>0, 0\<close> for every exception.
  A file that is read without error but whose text the tokenizer refuses is therefore
  reported with zero lines, although its text is at hand and the number of its lines
  does not depend on the tokenizer. The file \<^verbatim>\<open>notes.md\<close> of the example tree is
  readable; its text has no newline character, so it is one line, the one segment of
  \<^verbatim>\<open>content.split('\n')\<close>; its measured line count is 0.
\<close>

theorem tokenizer_error_zero_lines:
  "read_text tree (Some ''utf-8'') ''notes.md'' = Inr ''<|endoftext|>''
   \<and> strict_tokenizer ''<|endoftext|>'' = Inl ValueError
   \<and> 1 + int (count_list ''<|endoftext|>'' newline) = 1
   \<and> int (length (split_py newline ''<|endoftext|>'')) = 1
   \<and> count_tokens tree strict_tokenizer ''notes.md'' = (0, 0)
   \<and> snd (count_tokens tree strict_tokenizer ''notes.md'')
       \<noteq> 1 + int (count_list ''<|endoftext|>'' newline)
   \<and> snd (count_tokens tree strict_tokenizer ''notes.md'')
       \<noteq> int (length (split_py newline ''<|endoftext|>''))"
  by (simp add: tree_def tree_read_def count_tokens_def count_tokens_try_def
      strict_tokenizer_def newline_def Let_def)

text \<open>
  The same holds for every readable file and every exception of the tokenizer; when the
  tokenizer returns, the line count is the number of segments.
\<close>

lemma count_tokens_tokenizer_raises:
  assumes "read_text fs (Some ''utf-8'') p = Inr content"
    and "enc content = Inl e"
  shows "count_tokens fs enc p = (0, 0)"
  using assms by (simp add: count_tokens_def count_tokens_try_def)

lemma count_tokens_lines_encoded:
  assumes "read_text fs (Some ''utf-8'') p = Inr content"
    and "enc content = Inr toks"
  shows "snd (count_tokens fs enc p) = 1 + int (count_list content newline)
         \<and> snd (count_tokens fs enc p) = int (length (split_py newline content))"
  using assms by (simp add: count_tokens_def count_tokens_try_def length_split_py)

section \<open>Properties of the aggregate reporter\<close>

lemma dict_set_fresh: "k \<notin> set (dict_keys d) \<Longrightarrow> dict_set d k v = d @ [(k, v)]"
  by (induction d) (auto simp: dict_keys_def)

lemma measure_commands_loop_fresh:
  "distinct (map fst cs) \<Longrightarrow> set (map fst cs) \<inter> set (dict_keys results) = {} \<Longrightarrow>
   measure_commands_loop fs enc cs results = results @ map (command_entry fs enc) cs"
proof (induction cs arbitrary: results)
  case Nil
  show ?case by simp
next
  case (Cons c cs)
  obtain name p where c: "c = (name, p)" by (cases c)
  obtain t l where tl: "count_tokens fs enc p = (t, l)" by (cases "count_tokens fs enc p")
  let ?v = "\<lparr>tokens = t, lines = l, path = p,
             pct_of_200k = round2 (float_mul (int_truediv t 200000) 100)\<rparr>"
  have fresh: "name \<notin> set (dict_keys results)"
    using Cons.prems(2) c by auto
  have step: "dict_set results name ?v = results @ [(name, ?v)]"
    using fresh by (rule dict_set_fresh)
  have d: "distinct (map fst cs)" using Cons.prems(1) by simp
  have e: "set (map fst cs) \<inter> set (dict_keys (results @ [(name, ?v)])) = {}"
    using Cons.prems c by (auto simp: dict_keys_def)
  have "measure_commands_loop fs enc (c # cs) results
          = measure_commands_loop fs enc cs (dict_set results name ?v)"
    by (simp add: c tl)
  also have "\<dots> = measure_commands_loop fs enc cs (results @ [(name, ?v)])"
    by (simp only: step)
  also have "\<dots> = (results @ [(name, ?v)]) @ map (command_entry fs enc) cs"
    by (rule Cons.IH [OF d e])
  also have "\<dots> = results @ map (command_entry fs enc) (c # cs)"
    by (simp add: c tl command_entry_def)
  finally show ?case .
qed

lemma measure_commands_eq: "measure_commands fs enc = map (command_entry fs enc) commands"
proof -
  have "distinct (map fst commands)" by (simp add: commands_def)
  then show ?thesis
    unfolding measure_commands_def
    using measure_commands_loop_fresh [of commands "[]" fs enc]
    by (simp add: dict_keys_def)
qed

text \<open>
  Three token counts whose percentage is, as a decimal number, halfway between two
  hundredths (0.005, 0.015 and 2.515): the float of each is not the decimal number, and
  \<^verbatim>\<open>round\<close> gives 0.01, 0.01 and 2.51.
\<close>

lemma round2_halfway:
  "round2 (float_mul (int_truediv 10 200000) 100) = nearest_double (1 / 100)"
  "round2 (float_mul (int_truediv 30 200000) 100) = nearest_double (1 / 100)"
  "round2 (float_mul (int_truediv 5030 200000) 100) = nearest_double (251 / 100)"
  by code_simp+

lemma tree_prompt_files:
  "measure_prompt_files tree char_tokenizer
     = Inr [(''.tiki/prompts/execute'', [(''intro.md'', \<lparr>tokens = 5, lines = 1\<rparr>)])]"
  by (simp add: measure_prompt_files_def prompt_dirs_def tree_def tree_listdir_def tree_read_def
      endswith_def count_tokens_def count_tokens_try_def char_tokenizer_def newline_def Let_def)


text \<open>
  Claim C8. In every snapshot that \<^verbatim>\<open>main\<close> builds, the totals are the sums of the
  token counts and of the line counts of the entries of \<^verbatim>\<open>commands\<close>. These are the
  sums over the six command files only: nothing measured in the prompt directories
  enters them.
\<close>

theorem build_data_totals:
  assumes "build_data fs enc now = Inr d"
  shows "all_large_commands_tokens (data_totals d)
           = sum_list (map tokens (dict_values (data_commands d)))
         \<and> all_large_commands_lines (data_totals d)
           = sum_list (map lines (dict_values (data_commands d)))
         \<and> all_large_commands_tokens (data_totals d)
           = (\<Sum>np\<leftarrow>commands. fst (count_tokens fs enc (snd np)))
         \<and> all_large_commands_lines (data_totals d)
           = (\<Sum>np\<leftarrow>commands. snd (count_tokens fs enc (snd np)))"
proof -
  obtain pf where d: "d = \<lparr>data_timestamp = now,
                  data_commands = measure_commands fs enc,
                  data_execute_invocation = measure_execute_invocation fs enc,
                  data_prompt_files = pf,
                  data_totals =
                    \<lparr>all_large_commands_tokens = sum_list (map tokens (dict_values (measure_commands fs enc))),
                     all_large_commands_lines = sum_list (map lines (dict_values (measure_commands fs enc)))\<rparr>\<rparr>"
    using assms by (auto simp: build_data_def Let_def split: sum.splits)
  have t: "map tokens (dict_values (measure_commands fs enc)) = map (\<lambda>np. fst (count_tokens fs enc (snd np))) commands"
    by (simp add: measure_commands_eq dict_values_def command_entry_def comp_def)
  have l: "map lines (dict_values (measure_commands fs enc)) = map (\<lambda>np. snd (count_tokens fs enc (snd np))) commands"
    by (simp add: measure_commands_eq dict_values_def command_entry_def comp_def)
  show ?thesis
    by (simp add: d t l)
qed

theorem build_data_totals_witness:
  "\<exists>d. build_data tree char_tokenizer ''2025-01-15T10:30:00'' = Inr d
       \<and> data_prompt_files d
           = [(''.tiki/prompts/execute'', [(''intro.md'', \<lparr>tokens = 5, lines = 1\<rparr>)])]
       \<and> all_large_commands_tokens (data_totals d) = 8
       \<and> all_large_commands_lines (data_totals d) = 3"
proof -
  obtain d where d: "build_data tree char_tokenizer ''2025-01-15T10:30:00'' = Inr d"
    and pf: "data_prompt_files d
           = [(''.tiki/prompts/execute'', [(''intro.md'', \<lparr>tokens = 5, lines = 1\<rparr>)])]"
    by (simp add: build_data_def tree_prompt_files Let_def)
  have t: "(\<Sum>np\<leftarrow>commands. fst (count_tokens tree char_tokenizer (snd np))) = 8"
    by (simp add: commands_def tree_def tree_read_def count_tokens_def count_tokens_try_def
        char_tokenizer_def)
  have l: "(\<Sum>np\<leftarrow>commands. snd (count_tokens tree char_tokenizer (snd np))) = 3"
    by (simp add: commands_def tree_def tree_read_def count_tokens_def count_tokens_try_def
        char_tokenizer_def newline_def Let_def)
  show ?thesis
    using d pf t l build_data_totals [OF d] by simp
qed

lemma dict_set_nonempty: "dict_set d k v \<noteq> []"
  by (cases d) (auto split: if_splits)

lemma dict_keys_dict_set: "set (dict_keys (dict_set d k v)) = insert k (set (dict_keys d))"
proof (induction d)
  case Nil
  show ?case by (simp add: dict_keys_def)
next
  case (Cons a d)
  obtain k' v' where a: "a = (k', v')" by (cases a)
  show ?case
  proof (cases "k' = k")
    case True
    then show ?thesis by (simp add: a dict_keys_def)
  next
    case False
    have "set (dict_keys (dict_set (a # d) k v)) = insert k' (set (dict_keys (dict_set d k v)))"
      using False by (simp add: a dict_keys_def)
    also have "\<dots> = insert k' (insert k (set (dict_keys d)))"
      by (simp only: Cons.IH)
    also have "\<dots> = insert k (set (dict_keys (a # d)))"
      by (simp add: a dict_keys_def insert_commute)
    finally show ?thesis .
  qed
qed

lemma set_dict_set: "set (dict_set d k v) \<subseteq> insert (k, v) (set d)"
  by (induction d) (auto split: if_splits)

lemma measure_dir_loop_keeps:
  "acc \<noteq> [] \<Longrightarrow> measure_dir_loop fs enc dir_path names acc \<noteq> []"
  by (induction names arbitrary: acc) (auto simp: dict_set_nonempty split: prod.splits)

lemma measure_dir_loop_nonempty:
  "(measure_dir_loop fs enc dir_path names [] \<noteq> []) = (\<exists>f\<in>set names. endswith f ''.md'')"
proof (induction names)
  case Nil
  show ?case by simp
next
  case (Cons f fs')
  show ?case
  proof (cases "endswith f ''.md''")
    case True
    then show ?thesis
      by (auto simp: measure_dir_loop_keeps dict_set_nonempty split: prod.splits)
  next
    case False
    then show ?thesis using Cons.IH by simp
  qed
qed

lemma measure_prompt_files_loop_keys:
  "measure_prompt_files_loop fs enc dirs results = Inr out \<Longrightarrow>
   set (dict_keys out) = set (dict_keys results) \<union> {d \<in> set dirs. has_markdown fs d}"
proof (induction dirs arbitrary: results)
  case Nil
  then show ?case by simp
next
  case (Cons d ds)
  show ?case
  proof (cases "path_exists fs d")
    case False
    then have "measure_prompt_files_loop fs enc ds results = Inr out"
      using Cons.prems by simp
    from Cons.IH [OF this] False show ?thesis
      by (auto simp: has_markdown_def)
  next
    case True
    then obtain names where names: "listdir fs d = Inr names"
      using Cons.prems by (auto split: sum.splits)
    show ?thesis
    proof (cases "measure_dir_loop fs enc d names [] \<noteq> []")
      case ne: True
      then have md: "has_markdown fs d"
        using True names by (simp add: has_markdown_def measure_dir_loop_nonempty)
      have "measure_prompt_files_loop fs enc ds
              (dict_set results d (measure_dir_loop fs enc d names [])) = Inr out"
        using Cons.prems True names ne by (simp add: Let_def)
      from Cons.IH [OF this] md show ?thesis
        by (auto simp: dict_keys_dict_set)
    next
      case False
      then have md: "\<not> has_markdown fs d"
        using names by (simp add: has_markdown_def measure_dir_loop_nonempty)
      have "measure_prompt_files_loop fs enc ds results = Inr out"
        using Cons.prems True names False by (simp add: Let_def)
      from Cons.IH [OF this] md show ?thesis
        by auto
    qed
  qed
qed

lemma measure_prompt_files_loop_values:
  "measure_prompt_files_loop fs enc dirs results = Inr out \<Longrightarrow>
   [] \<notin> snd ` set results \<Longrightarrow> [] \<notin> snd ` set out"
proof (induction dirs arbitrary: results)
  case Nil
  then show ?case by simp
next
  case (Cons d ds)
  show ?case
  proof (cases "path_exists fs d")
    case False
    then have "measure_prompt_files_loop fs enc ds results = Inr out"
      using Cons.prems by simp
    from Cons.IH [OF this Cons.prems(2)] show ?thesis .
  next
    case True
    then obtain names where names: "listdir fs d = Inr names"
      using Cons.prems by (auto split: sum.splits)
    show ?thesis
    proof (cases "measure_dir_loop fs enc d names [] \<noteq> []")
      case ne: True
      have run: "measure_prompt_files_loop fs enc ds
              (dict_set results d (measure_dir_loop fs enc d names [])) = Inr out"
        using Cons.prems True names ne by (simp add: Let_def)
      have "[] \<notin> snd ` set (dict_set results d (measure_dir_loop fs enc d names []))"
        using set_dict_set [of results d "measure_dir_loop fs enc d names []"] ne Cons.prems(2)
        by force
      from Cons.IH [OF run this] show ?thesis .
    next
      case False
      have "measure_prompt_files_loop fs enc ds results = Inr out"
        using Cons.prems True names False by (simp add: Let_def)
      from Cons.IH [OF this Cons.prems(2)] show ?thesis .
    qed
  qed
qed

lemma measure_prompt_files_returns:
  "(\<And>d. d \<in> set dirs \<Longrightarrow> path_exists fs d \<Longrightarrow> \<exists>names. listdir fs d = Inr names) \<Longrightarrow>
   \<exists>out. measure_prompt_files_loop fs enc dirs results = Inr out"
proof (induction dirs arbitrary: results)
  case Nil
  show ?case by simp
next
  case (Cons d ds)
  have rest: "\<And>r. \<exists>out. measure_prompt_files_loop fs enc ds r = Inr out"
    using Cons.IH Cons.prems by simp
  show ?case
  proof (cases "path_exists fs d")
    case False
    then show ?thesis using rest by simp
  next
    case True
    then obtain names where "listdir fs d = Inr names"
      using Cons.prems [of d] by auto
    then show ?thesis using True rest by (simp add: Let_def)
  qed
qed

text \<open>
  Claim C10. A prompt directory that exists but lists no file ending in \<^verbatim>\<open>.md\<close> is
  not a key of \<^verbatim>\<open>prompt_files\<close>, just as a directory that does not exist is not; so
  every key of \<^verbatim>\<open>prompt_files\<close> maps to a dictionary with at least one file entry.
\<close>

theorem prompt_files_keys:
  assumes "measure_prompt_files fs enc = Inr results"
  shows "(path_exists fs dir \<and> listdir fs dir = Inr names
            \<and> (\<forall>f\<in>set names. \<not> endswith f ''.md'') \<longrightarrow> dir \<notin> set (dict_keys results))
         \<and> (\<not> path_exists fs dir \<longrightarrow> dir \<notin> set (dict_keys results))
         \<and> (\<forall>files. (dir, files) \<in> set results \<longrightarrow> files \<noteq> [])"
proof -
  have keys: "set (dict_keys results) = {d \<in> set prompt_dirs. has_markdown fs d}"
    using measure_prompt_files_loop_keys [of fs enc prompt_dirs "[]" results] assms
    by (simp add: measure_prompt_files_def dict_keys_def)
  have vals: "[] \<notin> snd ` set results"
    using measure_prompt_files_loop_values [of fs enc prompt_dirs "[]" results] assms
    by (simp add: measure_prompt_files_def)
  have a: "path_exists fs dir \<and> listdir fs dir = Inr names
            \<and> (\<forall>f\<in>set names. \<not> endswith f ''.md'') \<longrightarrow> dir \<notin> set (dict_keys results)"
    by (auto simp: keys has_markdown_def)
  have b: "\<not> path_exists fs dir \<longrightarrow> dir \<notin> set (dict_keys results)"
    by (auto simp: keys has_markdown_def)
  have c: "\<forall>files. (dir, files) \<in> set results \<longrightarrow> files \<noteq> []"
    using vals by force
  from a b c show ?thesis by blast
qed

theorem prompt_files_keys_witness:
  "measure_prompt_files tree char_tokenizer
     = Inr [(''.tiki/prompts/execute'', [(''intro.md'', \<lparr>tokens = 5, lines = 1\<rparr>)])]
   \<and> path_exists tree ''.tiki/prompts/plan''
   \<and> listdir tree ''.tiki/prompts/plan'' = Inr [''readme.txt'']
   \<and> \<not> endswith ''readme.txt'' ''.md''
   \<and> ''.tiki/prompts/plan''
       \<notin> set (dict_keys [(''.tiki/prompts/execute'', [(''intro.md'', \<lparr>tokens = 5, lines = 1\<rparr>)])])
   \<and> \<not> path_exists tree ''.tiki/prompts/debug''"
proof -
  have e: "path_exists tree ''.tiki/prompts/plan''"
    by (simp add: tree_def)
  have l: "listdir tree ''.tiki/prompts/plan'' = Inr [''readme.txt'']"
    by (simp add: tree_def tree_listdir_def)
  have n: "\<forall>f\<in>set [''readme.txt'']. \<not> endswith f ''.md''"
    by (simp add: endswith_def)
  have d: "\<not> path_exists tree ''.tiki/prompts/debug''"
    by (simp add: tree_def)
  show ?thesis
    using e l n d
      prompt_files_keys [OF tree_prompt_files, of "''.tiki/prompts/plan''" "[''readme.txt'']"]
    by (simp add: tree_prompt_files)
qed


section \<open>Properties of the comparator\<close>

lemma rows_of_append: "rows_of (a @ b) = rows_of a @ rows_of b"
  by (induction a rule: rows_of.induct) simp_all

lemma totals_of_append: "totals_of (a @ b) = totals_of a @ totals_of b"
  by (induction a rule: totals_of.induct) simp_all

lemma total_row_in_totals_of: "TotalRow tb tc ch pct \<in> set os \<Longrightarrow> (tb, tc) \<in> set (totals_of os)"
  by (induction os rule: totals_of.induct) auto

lemma io_bind_cases:
  assumes "io_bind m f = (outs, r)"
  shows "(\<exists>e. m = (outs, Inl e) \<and> r = Inl e)
         \<or> (\<exists>o1 a o2. m = (o1, Inr a) \<and> f a = (o2, r) \<and> outs = o1 @ o2)"
  using assms by (auto simp: io_bind_def split: prod.splits sum.splits)

lemma load_baseline_quiet:
  "load_baseline fs jl = (os, r) \<Longrightarrow> rows_of os = [] \<and> totals_of os = []"
  by (auto simp: load_baseline_def split: sum.splits if_splits)

lemma header_quiet:
  "header b today = (os, r) \<Longrightarrow> rows_of os = [] \<and> totals_of os = []"
  by (auto simp: header_def io_bind_def io_print_def io_lift_def split: sum.splits prod.splits)

lemma rows_of_prompt_files: "rows_of (map (\<lambda>f. PromptFile (path f) (lines f) (tokens f)) fs) = []"
  by (induction fs) simp_all

lemma totals_of_prompt_files: "totals_of (map (\<lambda>f. PromptFile (path f) (lines f) (tokens f)) fs) = []"
  by (induction fs) simp_all

lemma prompts_section_quiet:
  "prompts_section ps = (os, r) \<Longrightarrow> rows_of os = [] \<and> totals_of os = []"
  by (auto simp: prompts_section_def io_print_def rows_of_append totals_of_append
      rows_of_prompt_files totals_of_prompt_files split: if_splits)

lemma savings_section_quiet:
  "savings_section b c = (os, r) \<Longrightarrow> rows_of os = [] \<and> totals_of os = []"
  by (auto simp: savings_section_def io_bind_def io_print_def io_lift_def Let_def
      split: sum.splits prod.splits if_splits)


lemma rows_loop_sums:
  "rows_loop b cur acc = (os, Inr acc') \<Longrightarrow>
   fst acc' = fst acc + sum_list (map baseline_tokens (rows_of os))
   \<and> snd acc' = snd acc + sum_list (map current_tokens (rows_of os))"
proof (induction cur arbitrary: acc os)
  case Nil
  then show ?case by simp
next
  case (Cons c cs)
  obtain name m where c: "c = (name, m)" by (cases c)
  from Cons.prems obtain row where row: "row_step b name m = Inr row"
    by (auto simp: c split: sum.splits)
  obtain os' r' where rest:
    "rows_loop b cs (fst acc + baseline_tokens row, snd acc + current_tokens row) = (os', r')"
    by (cases "rows_loop b cs (fst acc + baseline_tokens row, snd acc + current_tokens row)")
  from Cons.prems have os: "os = Row row # os'" and r': "r' = Inr acc'"
    by (simp_all add: c row rest)
  from Cons.IH [OF rest [unfolded r']] show ?case
    by (simp add: os)
qed

lemma rows_loop_totals_of: "rows_loop b cur acc = (os, r) \<Longrightarrow> totals_of os = []"
proof (induction cur arbitrary: acc os r)
  case Nil
  then show ?case by simp
next
  case (Cons c cs)
  obtain name m where c: "c = (name, m)" by (cases c)
  show ?case
  proof (cases "row_step b name m")
    case (Inl e)
    then show ?thesis using Cons.prems by (simp add: c)
  next
    case (Inr row)
    obtain os' r' where rest:
      "rows_loop b cs (fst acc + baseline_tokens row, snd acc + current_tokens row) = (os', r')"
      by (cases "rows_loop b cs (fst acc + baseline_tokens row, snd acc + current_tokens row)")
    from Cons.prems have "os = Row row # os'"
      by (simp add: c Inr rest)
    then show ?thesis using Cons.IH [OF rest] by simp
  qed
qed

lemma rows_loop_rows:
  "rows_loop b cur acc = (os, r) \<Longrightarrow> row \<in> set (rows_of os) \<Longrightarrow>
   \<exists>name m. (name, m) \<in> set cur \<and> row_step b name m = Inr row"
proof (induction cur arbitrary: acc os r)
  case Nil
  then show ?case by simp
next
  case (Cons c cs)
  obtain name m where c: "c = (name, m)" by (cases c)
  show ?case
  proof (cases "row_step b name m")
    case (Inl e)
    then show ?thesis using Cons.prems by (simp add: c)
  next
    case (Inr row')
    obtain os' r' where rest:
      "rows_loop b cs (fst acc + baseline_tokens row', snd acc + current_tokens row') = (os', r')"
      by (cases "rows_loop b cs (fst acc + baseline_tokens row', snd acc + current_tokens row')")
    from Cons.prems(1) have os: "os = Row row' # os'"
      by (simp add: c Inr rest)
    from Cons.prems(2) os have "row = row' \<or> row \<in> set (rows_of os')"
      by auto
    then show ?thesis
    proof
      assume "row = row'"
      then show ?thesis using Inr c by auto
    next
      assume "row \<in> set (rows_of os')"
      from Cons.IH [OF rest this] show ?thesis by auto
    qed
  qed
qed

lemma row_step_make_row:
  "row_step b name m = Inr row \<Longrightarrow> \<exists>bt. row = make_row name bt (of_int (tokens m))"
  by (auto simp: row_step_def split: sum.splits)

lemma rows_section_rows:
  "rows_section b cur = (os, r) \<Longrightarrow> row \<in> set (rows_of os) \<Longrightarrow>
   \<exists>name m. (name, m) \<in> set cur \<and> row_step b name m = Inr row"
proof -
  assume run: "rows_section b cur = (os, r)" and row: "row \<in> set (rows_of os)"
  obtain o1 r1 where loop: "rows_loop b cur (0, 0) = (o1, r1)"
    by (cases "rows_loop b cur (0, 0)")
  have "rows_of os = rows_of o1"
    using run loop
    by (auto simp: rows_section_def io_bind_def io_print_def Let_def rows_of_append
        split: sum.splits)
  with row have "row \<in> set (rows_of o1)" by simp
  from rows_loop_rows [OF loop this] show ?thesis .
qed

lemma rows_section_totals:
  assumes run: "rows_section b cur = (os, r)"
    and tot: "(tb, tc) \<in> set (totals_of os)"
  shows "tb = sum_list (map baseline_tokens (rows_of os))
         \<and> tc = sum_list (map current_tokens (rows_of os))"
proof -
  obtain o1 r1 where loop: "rows_loop b cur (0, 0) = (o1, r1)"
    by (cases "rows_loop b cur (0, 0)")
  have t1: "totals_of o1 = []"
    using rows_loop_totals_of [OF loop] .
  show ?thesis
  proof (cases r1)
    case (Inl e)
    then have "os = o1" using run loop by (simp add: rows_section_def io_bind_def)
    then show ?thesis using tot t1 by simp
  next
    case (Inr acc)
    have sums: "fst acc = sum_list (map baseline_tokens (rows_of o1))
                \<and> snd acc = sum_list (map current_tokens (rows_of o1))"
      using rows_loop_sums [OF loop [unfolded Inr]] by simp
    have os: "os = o1 @ [Text (rule CHR ''-''),
                 TotalRow (fst acc) (snd acc) (snd acc - fst acc)
                   (if fst acc > 0 then (snd acc - fst acc) / fst acc * 100 else 0),
                 Text []]"
      using run loop Inr by (simp add: rows_section_def io_bind_def io_print_def Let_def)
    have "rows_of os = rows_of o1" and "totals_of os = [(fst acc, snd acc)]"
      by (simp_all add: os rows_of_append totals_of_append t1)
    then show ?thesis using tot sums by simp
  qed
qed


lemma io_bind_quiet_left:
  assumes "io_bind m f = (outs, r)"
    and "quiet (fst m)"
  shows "quiet outs
         \<or> (\<exists>a o2. snd m = Inr a \<and> f a = (o2, r)
                \<and> rows_of outs = rows_of o2 \<and> totals_of outs = totals_of o2)"
  using io_bind_cases [OF assms(1)] assms(2)
  by (auto simp: quiet_def rows_of_append totals_of_append)

lemma io_bind_quiet_right:
  assumes "io_bind m f = (outs, r)"
    and "\<And>a. quiet (fst (f a))"
  shows "rows_of outs = rows_of (fst m) \<and> totals_of outs = totals_of (fst m)"
proof -
  from io_bind_cases [OF assms(1)] show ?thesis
  proof (elim disjE exE conjE)
    fix e assume "m = (outs, Inl e)"
    then show ?thesis by simp
  next
    fix o1 a o2 assume m: "m = (o1, Inr a)" and f: "f a = (o2, r)" and outs: "outs = o1 @ o2"
    have "quiet o2" using assms(2) [of a] f by simp
    then show ?thesis by (simp add: m outs quiet_def rows_of_append totals_of_append)
  qed
qed

lemma io_bind_quiet:
  assumes "io_bind m f = (outs, r)"
    and "quiet (fst m)"
    and "\<And>a. quiet (fst (f a))"
  shows "quiet outs"
  using io_bind_quiet_right [OF assms(1) assms(3)] assms(2) by (simp add: quiet_def)

lemma quiet_sections:
  "quiet (fst (load_baseline fs jl))"
  "quiet (fst (header b today))"
  "quiet (fst (prompts_section ps))"
  "quiet (fst (savings_section b cur))"
  "quiet (fst (io_lift x))"
  "quiet (fst (io_print []))"
  using load_baseline_quiet [of fs jl "fst (load_baseline fs jl)" "snd (load_baseline fs jl)"]
    header_quiet [of b today "fst (header b today)" "snd (header b today)"]
    prompts_section_quiet [of ps "fst (prompts_section ps)" "snd (prompts_section ps)"]
    savings_section_quiet [of b cur "fst (savings_section b cur)" "snd (savings_section b cur)"]
  by (simp_all add: quiet_def io_lift_def io_print_def)

lemma compare_main_rows:
  assumes run: "compare_main fs enc jl today = (outs, r)"
  shows "quiet outs
         \<or> (\<exists>b. snd (load_baseline fs jl) = Inr (Some b)
               \<and> rows_of outs = rows_of (fst (rows_section b (measure_current fs enc)))
               \<and> totals_of outs = totals_of (fst (rows_section b (measure_current fs enc))))"
proof -
  from io_bind_quiet_left [OF run [unfolded compare_main_def] quiet_sections(1)]
  show ?thesis
  proof (elim disjE exE conjE)
    assume "quiet outs"
    then show ?thesis by simp
  next
    fix loaded o2
    assume ld: "snd (load_baseline fs jl) = Inr loaded"
      and rows: "rows_of outs = rows_of o2" and tots: "totals_of outs = totals_of o2"
      and rest: "(case loaded of
             None \<Rightarrow> io_print []
           | Some baseline \<Rightarrow>
               (if \<not> py_truthy baseline then io_print []
                else
                  (let current = measure_current fs enc
                   in io_bind (io_lift (measure_prompt_totals fs enc))
                        (\<lambda>ps. io_bind (header baseline today)
                        (\<lambda>_. io_bind (rows_section baseline current)
                        (\<lambda>_. io_bind (prompts_section ps)
                        (\<lambda>_. savings_section baseline current))))))) = (o2, r)"
    show ?thesis
    proof (cases loaded)
      case None
      then have "o2 = []" using rest by (simp add: io_print_def)
      then show ?thesis using rows tots by (simp add: quiet_def)
    next
      case (Some b)
      show ?thesis
      proof (cases "py_truthy b")
        case False
        then have "o2 = []" using rest Some by (simp add: io_print_def)
        then show ?thesis using rows tots by (simp add: quiet_def)
      next
        case True
        let ?cur = "measure_current fs enc"
        have rest': "io_bind (io_lift (measure_prompt_totals fs enc))
                        (\<lambda>ps. io_bind (header b today)
                        (\<lambda>_. io_bind (rows_section b ?cur)
                        (\<lambda>_. io_bind (prompts_section ps)
                        (\<lambda>_. savings_section b ?cur)))) = (o2, r)"
          using rest Some True by (simp add: Let_def)
        from io_bind_quiet_left [OF rest' quiet_sections(5)]
        show ?thesis
        proof (elim disjE exE conjE)
          assume "quiet o2"
          then show ?thesis using rows tots by (simp add: quiet_def)
        next
          fix ps o3
          assume r3: "io_bind (header b today)
                        (\<lambda>_. io_bind (rows_section b ?cur)
                        (\<lambda>_. io_bind (prompts_section ps)
                        (\<lambda>_. savings_section b ?cur))) = (o3, r)"
            and rows3: "rows_of o2 = rows_of o3" and tots3: "totals_of o2 = totals_of o3"
          from io_bind_quiet_left [OF r3 quiet_sections(2)]
          show ?thesis
          proof (elim disjE exE conjE)
            assume "quiet o3"
            then show ?thesis using rows tots rows3 tots3 by (simp add: quiet_def)
          next
            fix u o4
            assume r4: "io_bind (rows_section b ?cur)
                        (\<lambda>_. io_bind (prompts_section ps)
                        (\<lambda>_. savings_section b ?cur)) = (o4, r)"
              and rows4: "rows_of o3 = rows_of o4" and tots4: "totals_of o3 = totals_of o4"
            have tail: "\<And>a. quiet (fst (io_bind (prompts_section ps)
                        (\<lambda>_. savings_section b ?cur)))"
            proof -
              fix a :: unit
              obtain ot rt where t: "io_bind (prompts_section ps)
                        (\<lambda>_. savings_section b ?cur) = (ot, rt)"
                by (cases "io_bind (prompts_section ps) (\<lambda>_. savings_section b ?cur)")
              from io_bind_quiet [OF t quiet_sections(3) quiet_sections(4)]
              show "quiet (fst (io_bind (prompts_section ps)
                        (\<lambda>_. savings_section b ?cur)))"
                by (simp add: t)
            qed
            from io_bind_quiet_right [OF r4 tail]
            have "rows_of o4 = rows_of (fst (rows_section b ?cur))"
              and "totals_of o4 = totals_of (fst (rows_section b ?cur))"
              by simp_all
            then show ?thesis
              using rows tots rows3 tots3 rows4 tots4 ld Some by auto
          qed
        qed
      qed
    qed
  qed
qed

lemma example_run:
  "compare_main tree_with_baseline flat_tokenizer (fixed_parser baseline_10000) ''2025-02-01''
     = (example_report, Inr ())"
  by code_simp

text \<open>
  Claim C7. In every run of the comparison, a total row that is printed carries, as its
  baseline and current token counts, the sums of the baseline and of the current token
  counts of the rows printed for the commands.
\<close>

theorem compare_total_row:
  assumes "compare_main fs enc loads today = (outs, r)"
    and "TotalRow tb tc ch pct \<in> set outs"
  shows "tb = sum_list (map baseline_tokens (rows_of outs))
         \<and> tc = sum_list (map current_tokens (rows_of outs))"
proof -
  have tot: "(tb, tc) \<in> set (totals_of outs)"
    using assms(2) by (rule total_row_in_totals_of)
  from compare_main_rows [OF assms(1)] show ?thesis
  proof (elim disjE exE conjE)
    assume "quiet outs"
    then show ?thesis using tot by (simp add: quiet_def)
  next
    fix b
    assume rows: "rows_of outs = rows_of (fst (rows_section b (measure_current fs enc)))"
      and tots: "totals_of outs = totals_of (fst (rows_section b (measure_current fs enc)))"
    obtain os' r' where sec: "rows_section b (measure_current fs enc) = (os', r')"
      by (cases "rows_section b (measure_current fs enc)")
    have "(tb, tc) \<in> set (totals_of os')"
      using tot tots sec by simp
    from rows_section_totals [OF sec this] show ?thesis
      using rows sec by simp
  qed
qed

theorem compare_total_row_witness:
  "compare_main tree_with_baseline flat_tokenizer (fixed_parser baseline_10000) ''2025-02-01''
     = (example_report, Inr ())
   \<and> TotalRow 10000 7000 (- 3000) (- 30) \<in> set example_report
   \<and> sum_list (map baseline_tokens (rows_of example_report)) = 10000
   \<and> sum_list (map current_tokens (rows_of example_report)) = 7000"
proof -
  have mem: "TotalRow 10000 7000 (- 3000) (- 30) \<in> set example_report"
    by (simp add: example_report_def)
  show ?thesis
    using example_run mem compare_total_row [OF example_run mem] by simp
qed

text \<open>
  Claim C3. A token count is never negative: it is the length of a list of tokens, or 0.
  For every row that a run of the comparison prints and whose baseline token count is not
  negative, the change is the current minus the baseline token count; \<open>pct_change\<close> is
  \<open>(current - baseline) / baseline * 100\<close> when the baseline token count is not zero,
  and exactly 0 when it is zero, whatever the current count. (The quotient is that of the
  rational numbers.)
\<close>

theorem compare_pct_change:
  assumes "compare_main fs enc loads today = (outs, r)"
    and "row \<in> set (rows_of outs)"
    and "0 \<le> baseline_tokens row"
  shows "change row = current_tokens row - baseline_tokens row
         \<and> (baseline_tokens row \<noteq> 0 \<longrightarrow>
              pct_change row
                = (current_tokens row - baseline_tokens row) / baseline_tokens row * 100)
         \<and> (baseline_tokens row = 0 \<longrightarrow> pct_change row = 0)"
proof -
  from compare_main_rows [OF assms(1)]
  obtain b where rows: "rows_of outs = rows_of (fst (rows_section b (measure_current fs enc)))"
    using assms(2) by (auto simp: quiet_def)
  obtain os' r' where sec: "rows_section b (measure_current fs enc) = (os', r')"
    by (cases "rows_section b (measure_current fs enc)")
  have "row \<in> set (rows_of os')"
    using assms(2) rows sec by simp
  from rows_section_rows [OF sec this] obtain name m where "row_step b name m = Inr row"
    by blast
  from row_step_make_row [OF this] obtain bt where "row = make_row name bt (of_int (tokens m))"
    by blast
  then show ?thesis
    using assms(3) by (simp add: make_row_def Let_def)
qed

theorem compare_pct_change_witness:
  "compare_main tree_with_baseline flat_tokenizer (fixed_parser baseline_10000) ''2025-02-01''
     = (example_report, Inr ())
   \<and> make_row ''execute.md'' 10000 7000 \<in> set (rows_of example_report)
   \<and> 0 \<le> baseline_tokens (make_row ''execute.md'' 10000 7000)
   \<and> baseline_tokens (make_row ''execute.md'' 10000 7000) \<noteq> 0
   \<and> pct_change (make_row ''execute.md'' 10000 7000) = (7000 - 10000) / 10000 * 100
   \<and> make_row ''execute.md'' 0 7000
       \<in> set (rows_of (fst (compare_main tree_with_baseline flat_tokenizer
                              (fixed_parser baseline_zero) ''2025-02-01'')))
   \<and> 0 \<le> baseline_tokens (make_row ''execute.md'' 0 7000)
   \<and> baseline_tokens (make_row ''execute.md'' 0 7000) = 0
   \<and> current_tokens (make_row ''execute.md'' 0 7000) = 7000
   \<and> pct_change (make_row ''execute.md'' 0 7000) = 0"
proof -
  let ?run = "compare_main tree_with_baseline flat_tokenizer (fixed_parser baseline_zero)
                ''2025-02-01''"
  have a: "make_row ''execute.md'' 10000 7000 \<in> set (rows_of example_report)"
    by (simp add: example_report_def)
  have a0: "0 \<le> baseline_tokens (make_row ''execute.md'' 10000 7000)"
    by (simp add: make_row_def)
  have run: "?run = (fst ?run, snd ?run)"
    by simp
  have b: "make_row ''execute.md'' 0 7000 \<in> set (rows_of (fst ?run))"
    by code_simp
  have b0: "0 \<le> baseline_tokens (make_row ''execute.md'' 0 7000)"
    by (simp add: make_row_def)
  show ?thesis
    using example_run a a0 b b0 compare_pct_change [OF example_run a a0]
      compare_pct_change [OF run b b0]
    by (simp add: make_row_def)
qed

text \<open>
  Claim C5. When the baseline file does not exist, \<^verbatim>\<open>load_baseline\<close> prints the two
  lines that tell how to produce a baseline and returns \<^verbatim>\<open>None\<close>; \<^verbatim>\<open>main\<close> then
  returns normally, having printed those two lines only: no row, no total, no exception.
\<close>

theorem missing_baseline:
  assumes "read_text fs None baseline_path = Inl FileNotFoundError"
  shows "load_baseline fs loads = (guidance, Inr None)
         \<and> compare_main fs enc loads today = (guidance, Inr ())"
  using assms
  by (simp add: compare_main_def load_baseline_def load_baseline_try_def guidance_def
      io_bind_def io_print_def)

theorem missing_baseline_witness:
  "read_text tree None baseline_path = Inl FileNotFoundError
   \<and> load_baseline tree (fixed_parser baseline_10000) = (guidance, Inr None)
   \<and> compare_main tree flat_tokenizer (fixed_parser baseline_10000) ''2025-02-01''
       = (guidance, Inr ())
   \<and> rows_of guidance = [] \<and> totals_of guidance = []"
proof -
  have a: "read_text tree None baseline_path = Inl FileNotFoundError"
    by (simp add: tree_def tree_read_def baseline_path_def)
  show ?thesis
    using a missing_baseline [OF a, of "fixed_parser baseline_10000" flat_tokenizer "''2025-02-01''"]
    by (simp add: guidance_def)
qed

text \<open>
  Claim C6. With \<^verbatim>\<open>execute.md\<close> at 10000 tokens in the baseline and at 7000 tokens now,
  the effective-savings part prints 16115 tokens before
  (\<open>3000 + 10000 + 1115 + 1500 + 500\<close>), 13115 after
  (\<open>3000 + 7000 + 1115 + 1500 + 500\<close>), 3000 tokens saved, and a reduction of
  \<open>3000 / 16115 * 100\<close>, which is 18.6 to one decimal place.
\<close>

theorem effective_savings_scenario:
  assumes "exec_baseline_lookup baseline = Inr (JInt 10000)"
    and "exec_current_lookup current = Inr 7000"
  shows "savings_section baseline current = (savings_report, Inr ())
         \<and> MainContext (3000 + 10000 + 1115 + 1500 + 500) (3000 + 7000 + 1115 + 1500 + 500)
             \<in> set savings_report
         \<and> TokensSaved (16115 - 13115) \<in> set savings_report
         \<and> Reduction (3000 / 16115 * 100) \<in> set savings_report
         \<and> \<bar>3000 / 16115 * 100 - 186 / 10\<bar> < (5 / 100 :: rat)"
  using assms
  by (simp add: savings_section_def savings_report_def io_bind_def io_print_def io_lift_def
      Let_def)

theorem effective_savings_scenario_witness:
  "exec_baseline_lookup baseline_10000 = Inr (JInt 10000)
   \<and> exec_current_lookup (measure_current tree flat_tokenizer) = Inr 7000
   \<and> savings_section baseline_10000 (measure_current tree flat_tokenizer)
       = (savings_report, Inr ())"
proof -
  have a: "exec_baseline_lookup baseline_10000 = Inr (JInt 10000)"
    by (simp add: exec_baseline_lookup_def baseline_10000_def)
  have b: "exec_current_lookup (measure_current tree flat_tokenizer) = Inr 7000"
    by code_simp
  show ?thesis
    using a b effective_savings_scenario [OF a b] by simp
qed

lemma row_step_missing_name:
  assumes "py_getitem baseline ''commands'' = Inr (JObj cmds)"
    and "map_of cmds name = None"
  shows "row_step baseline name cur = Inr (make_row name 0 (of_int (tokens cur)))"
  using assms by (simp add: row_step_def)

text \<open>
  Claim C1 against the code. The loop over the current commands reads the baseline with
  \<^verbatim>\<open>.get\<close> and a zero default, and prints a row for \<^verbatim>\<open>execute.md\<close> with baseline 0
  when the baseline has no such entry. The effective-savings part then reads
  \<^verbatim>\<open>baseline['commands']['execute.md']['tokens']\<close> without a default: the run ends with
  \<^verbatim>\<open>KeyError\<close> after the table.
\<close>

theorem missing_execute_raises:
  "compare_main tree_with_baseline flat_tokenizer
     (fixed_parser baseline_without_execute) ''2025-02-01''
   = (partial_report, Inl (KeyError ''execute.md''))"
  by code_simp

section \<open>Properties of the baseline store\<close>

subsection \<open>Digits\<close>

lemma of_char_digit_char: "d < 10 \<Longrightarrow> (of_char (digit_char d) :: nat) = 48 + d"
  by (simp add: digit_char_def)

lemma is_digit_digit_char: "d < 10 \<Longrightarrow> is_digit (digit_char d)"
  by (simp add: is_digit_def of_char_digit_char)

lemma show_nat_digits: "list_all is_digit (show_nat n)"
proof (induction n rule: show_nat.induct)
  case (1 n)
  show ?case
  proof (cases "n < 10")
    case True
    then show ?thesis by (subst show_nat.simps) (simp add: is_digit_digit_char)
  next
    case False
    then show ?thesis
      using 1 by (subst show_nat.simps) (simp add: is_digit_digit_char)
  qed
qed

lemma show_nat_nonempty: "show_nat n \<noteq> []"
  by (subst show_nat.simps) simp

lemma digits_value_snoc:
  "digits_value (xs @ [c]) = 10 * digits_value xs + (of_char c - 48)"
  by (simp add: digits_value_def)

lemma digits_value_show_nat: "digits_value (show_nat n) = n"
proof (induction n rule: show_nat.induct)
  case (1 n)
  show ?case
  proof (cases "n < 10")
    case True
    then show ?thesis
      by (subst show_nat.simps) (simp add: digits_value_def of_char_digit_char)
  next
    case False
    have "digits_value (show_nat n)
            = 10 * digits_value (show_nat (n div 10)) + (of_char (digit_char (n mod 10)) - 48)"
      using False by (subst show_nat.simps) (simp add: digits_value_snoc)
    also have "\<dots> = 10 * (n div 10) + n mod 10"
      using 1 False by (simp add: of_char_digit_char)
    finally show ?thesis by simp
  qed
qed

lemma hd_show_nat: "n \<noteq> 0 \<Longrightarrow> hd (show_nat n) \<noteq> CHR ''0''"
proof (induction n rule: show_nat.induct)
  case (1 n)
  show ?case
  proof (cases "n < 10")
    case True
    have "(of_char (digit_char n) :: nat) \<noteq> of_char CHR ''0''"
      using True 1(2) by (simp add: of_char_digit_char)
    then have "digit_char n \<noteq> CHR ''0''" by auto
    then show ?thesis using True by (subst show_nat.simps) simp
  next
    case False
    then have "n div 10 \<noteq> 0" by simp
    with 1(1) False have "hd (show_nat (n div 10)) \<noteq> CHR ''0''" by simp
    then show ?thesis
      using False show_nat_nonempty [of "n div 10"]
      by (subst show_nat.simps) simp
  qed
qed

lemma stops_not_digit: "stops rest \<Longrightarrow> rest = [] \<or> \<not> is_digit (hd rest)"
  by (auto simp: stops_def is_digit_def newline_def)

lemma takeWhile_digits:
  "list_all is_digit ds \<Longrightarrow> rest = [] \<or> \<not> is_digit (hd rest) \<Longrightarrow>
   takeWhile is_digit (ds @ rest) = ds \<and> dropWhile is_digit (ds @ rest) = rest"
  by (induction ds) (cases rest; simp)+

lemma lex_frac_stops: "stops rest \<Longrightarrow> lex_frac rest = ([], rest)"
  by (auto simp: lex_frac_def stops_def newline_def split: list.splits)

lemma lex_exp_stops: "stops rest \<Longrightarrow> lex_exp rest = ([], rest)"
  by (auto simp: lex_exp_def stops_def newline_def split: list.splits)

lemma lex_int_show_nat:
  assumes "rest = [] \<or> \<not> is_digit (hd rest)"
  shows "lex_int (show_nat n @ rest) = Some (show_nat n, rest)"
proof (cases "n = 0")
  case True
  have "digit_char 0 = CHR ''0''"
    by code_simp
  then have "show_nat 0 = ''0''"
    by (subst show_nat.simps) simp
  then show ?thesis using True by (simp add: lex_int_def)
next
  case False
  obtain c t where ct: "show_nat n = c # t"
    using show_nat_nonempty [of n] by (cases "show_nat n") auto
  have c0: "c \<noteq> CHR ''0''" using hd_show_nat [OF False] ct by simp
  have cd: "is_digit c" using show_nat_digits [of n] ct by simp
  have cm: "c \<noteq> CHR ''-''" using cd by (auto simp: is_digit_def)
  have tw: "takeWhile is_digit (show_nat n @ rest) = show_nat n
            \<and> dropWhile is_digit (show_nat n @ rest) = rest"
    using takeWhile_digits [OF show_nat_digits assms] .
  show ?thesis
    using c0 cd cm tw by (simp add: lex_int_def ct Let_def)
qed

lemma lex_int_show_int:
  assumes "stops rest"
  shows "lex_int (show_int i @ rest) = Some (show_int i, rest)"
proof (cases "i < 0")
  case False
  then show ?thesis using lex_int_show_nat [OF stops_not_digit [OF assms]] by (simp add: show_int_def)
next
  case True
  let ?n = "nat (- i)"
  have n0: "?n \<noteq> 0" using True by simp
  obtain c t where ct: "show_nat ?n = c # t"
    using show_nat_nonempty [of ?n] by (cases "show_nat ?n") auto
  have c0: "c \<noteq> CHR ''0''" using hd_show_nat [OF n0] ct by simp
  have cd: "is_digit c" using show_nat_digits [of ?n] ct by simp
  have tw: "takeWhile is_digit (show_nat ?n @ rest) = show_nat ?n
            \<and> dropWhile is_digit (show_nat ?n @ rest) = rest"
    using takeWhile_digits [OF show_nat_digits stops_not_digit [OF assms]] .
  show ?thesis
    using True c0 cd tw by (simp add: lex_int_def show_int_def ct Let_def)
qed

lemma int_of_text_show_int: "int_of_text (show_int i) = i"
proof (cases "i < 0")
  case True
  then show ?thesis
    by (simp add: int_of_text_def show_int_def digits_value_show_nat)
next
  case False
  obtain c t where ct: "show_nat (nat i) = c # t"
    using show_nat_nonempty [of "nat i"] by (cases "show_nat (nat i)") auto
  have "is_digit c" using show_nat_digits [of "nat i"] ct by simp
  then have "c \<noteq> CHR ''-''" by (auto simp: is_digit_def)
  then have "int_of_text (show_nat (nat i)) = int (digits_value (show_nat (nat i)))"
    by (simp add: int_of_text_def ct)
  then show ?thesis using False by (simp add: show_int_def digits_value_show_nat)
qed

lemma parse_number_show_int:
  "stops rest \<Longrightarrow> parse_number (show_int i @ rest) = Inr (JInt i, rest)"
  by (simp add: parse_number_def lex_int_show_int lex_frac_stops lex_exp_stops
      int_of_text_show_int)

lemma show_int_nonempty: "show_int i \<noteq> []"
  by (simp add: show_int_def show_nat_nonempty)

lemma hd_show_int: "hd (show_int i) = CHR ''-'' \<or> is_digit (hd (show_int i))"
proof (cases "i < 0")
  case True
  then show ?thesis by (simp add: show_int_def)
next
  case False
  obtain c t where ct: "show_nat (nat i) = c # t"
    using show_nat_nonempty [of "nat i"] by (cases "show_nat (nat i)") auto
  have "is_digit c" using show_nat_digits [of "nat i"] ct by simp
  then show ?thesis using False by (simp add: show_int_def ct)
qed


subsection \<open>Strings\<close>

lemma hex_value_hex_char: "n < 16 \<Longrightarrow> hex_value (hex_char n) = Some n"
  by (auto simp: hex_value_def hex_char_def Let_def)

lemma hex4_two:
  assumes "a < 16" and "b < 16"
  shows "hex4 (CHR ''0'' # CHR ''0'' # hex_char a # hex_char b # t) = Some (a * 16 + b)"
proof -
  have z: "hex_value CHR ''0'' = Some 0"
    by (simp add: hex_value_def)
  show ?thesis
    by (simp add: hex4_def z hex_value_hex_char [OF assms(1)] hex_value_hex_char [OF assms(2)])
qed

lemma scan_string_escape:
  "scan_string (escape_char c @ t)
     = (case scan_string t of Inl x \<Rightarrow> Inl x | Inr (str, r) \<Rightarrow> Inr (c # str, r))"
proof -
  consider (special) "c = dquote \<or> c = backslash \<or> c = CHR 0x0A \<or> c = CHR 0x0D
                      \<or> c = CHR 0x09 \<or> c = CHR 0x08 \<or> c = CHR 0x0C"
    | (coded) "\<not> (c = dquote \<or> c = backslash \<or> c = CHR 0x0A \<or> c = CHR 0x0D
                      \<or> c = CHR 0x09 \<or> c = CHR 0x08 \<or> c = CHR 0x0C)"
              "(of_char c :: nat) < 32 \<or> 126 < (of_char c :: nat)"
    | (plain) "\<not> (c = dquote \<or> c = backslash \<or> c = CHR 0x0A \<or> c = CHR 0x0D
                      \<or> c = CHR 0x09 \<or> c = CHR 0x08 \<or> c = CHR 0x0C)"
              "\<not> ((of_char c :: nat) < 32 \<or> 126 < (of_char c :: nat))"
    by blast
  then show ?thesis
  proof cases
    case special
    then show ?thesis
      by (auto simp: escape_char_def unescape_def dquote_def backslash_def)
  next
    case coded
    let ?n = "of_char c :: nat"
    have lt: "?n < 256"
      using of_char_mod_256 [of c, where ?'a = nat]
      by (metis mod_less_divisor zero_less_numeral)
    have hi: "?n div 16 < 16" using lt by (simp add: div_less_iff_less_mult)
    have lo: "?n mod 16 < 16" by simp
    have esc: "escape_char c = [backslash, CHR ''u'', CHR ''0'', CHR ''0'',
                 hex_char (?n div 16), hex_char (?n mod 16)]"
      using coded by (simp add: escape_char_def)
    have val: "?n div 16 * 16 + ?n mod 16 = ?n" by simp
    show ?thesis
      using lt by (simp add: esc hex4_two [OF hi lo] val dquote_def backslash_def split: sum.splits prod.splits)
  next
    case plain
    then have esc: "escape_char c = [c]"
      by (simp add: escape_char_def)
    show ?thesis
      using plain by (simp add: esc)
  qed
qed

lemma scan_string_escaped:
  "scan_string (concat (map escape_char s) @ dquote # rest) = Inr (s, rest)"
  by (induction s) (simp_all add: scan_string_escape)

subsection \<open>White space\<close>

lemma skip_ws_spaces: "\<not> is_ws x \<Longrightarrow> skip_ws (replicate k CHR '' '' @ x # r) = x # r"
  by (induction k) (simp_all add: skip_ws_def is_ws_def)

lemma skip_ws_nl: "\<not> is_ws x \<Longrightarrow> skip_ws (nl l @ x # r) = x # r"
  using skip_ws_spaces [of x "2 * l" r]
  by (simp add: nl_def skip_ws_def is_ws_def newline_def)

lemma skip_ws_id: "\<not> is_ws x \<Longrightarrow> skip_ws (x # r) = x # r"
  by (simp add: skip_ws_def)

lemma skip_ws_space: "skip_ws (CHR '' '' # r) = skip_ws r"
  by (simp add: skip_ws_def is_ws_def)

lemma skip_ws_newline: "skip_ws [newline] = []"
  by (simp add: skip_ws_def is_ws_def newline_def)

lemma stops_nl: "stops (nl l @ r)"
  by (simp add: stops_def nl_def)

lemma stops_comma: "stops (CHR '','' # r)"
  by (simp add: stops_def)


subsection \<open>Values\<close>

lemma value_start_facts:
  "value_start c \<Longrightarrow> \<not> is_ws c \<and> c \<noteq> CHR '']'' \<and> c \<noteq> CHR ''}''"
  by (auto simp: value_start_def is_ws_def is_digit_def dquote_def)

lemma parse_number_start:
  assumes "parse_number s = Inr x"
  shows "\<exists>c t. s = c # t \<and> (c = CHR ''-'' \<or> is_digit c)"
proof (cases s)
  case Nil
  then show ?thesis using assms by (simp add: parse_number_def lex_int_def)
next
  case (Cons c t)
  have z: "is_digit CHR ''0''" by (simp add: is_digit_def)
  show ?thesis
  proof (cases "c = CHR ''-''")
    case True
    then show ?thesis using Cons by simp
  next
    case False
    then have "is_digit c"
      using assms Cons z
      by (auto simp: parse_number_def lex_int_def Let_def split: if_splits option.splits)
    then show ?thesis using Cons by simp
  qed
qed

lemma float_ok_start:
  assumes "float_ok fr r"
  shows "\<exists>c t. fr r = c # t \<and> (c = CHR ''-'' \<or> is_digit c)"
proof -
  have "parse_number (fr r @ []) = Inr (JFloat r, [])"
    using assms by (simp add: float_ok_def stops_def)
  then show ?thesis using parse_number_start [of "fr r"] by simp
qed

lemma parse_value_number:
  assumes "c = CHR ''-'' \<or> is_digit c"
  shows "parse_value (Suc n) (c # t) = parse_number (c # t)"
proof -
  have "c \<noteq> dquote" "c \<noteq> CHR ''{''" "c \<noteq> CHR ''[''" "c \<noteq> CHR ''n''" "c \<noteq> CHR ''t''"
    "c \<noteq> CHR ''f''"
    using assms by (auto simp: is_digit_def dquote_def)
  then show ?thesis by simp
qed

lemma dumps_start:
  "wf_json fr v \<Longrightarrow> \<exists>c t. dumps_at fr l v = c # t \<and> value_start c"
proof (cases v)
  case (JInt i)
  obtain c t where ct: "show_int i = c # t"
    using show_int_nonempty [of i] by (cases "show_int i") auto
  then have "c = CHR ''-'' \<or> is_digit c" using hd_show_int [of i] by simp
  then show ?thesis using JInt ct by (auto simp: value_start_def)
next
  case (JFloat r)
  assume "wf_json fr v"
  then have "float_ok fr r" using JFloat by simp
  from float_ok_start [OF this] show ?thesis
    using JFloat by (auto simp: value_start_def)
qed (auto simp: value_start_def show_string_def)

lemma skip_ws_dumps:
  assumes "wf_json fr v"
  shows "skip_ws (dumps_at fr l v @ r) = dumps_at fr l v @ r"
proof -
  from dumps_start [OF assms] obtain c t where ct: "dumps_at fr l v = c # t" and "value_start c"
    by blast
  then have "\<not> is_ws c" using value_start_facts by blast
  then show ?thesis by (simp add: ct skip_ws_id)
qed

lemma parse_leaf:
  assumes "wf_json fr v" and "stops rest"
    and "\<And>xs. v \<noteq> JArr xs" and "\<And>kvs. v \<noteq> JObj kvs"
  shows "parse_value (Suc n) (dumps_at fr l v @ rest) = Inr (v, rest)"
proof (cases v)
  case JNull
  then show ?thesis by (simp add: dquote_def)
next
  case (JBool b)
  then show ?thesis by (cases b) (simp_all add: dquote_def)
next
  case (JInt i)
  obtain c t where ct: "show_int i = c # t"
    using show_int_nonempty [of i] by (cases "show_int i") auto
  then have st: "c = CHR ''-'' \<or> is_digit c" using hd_show_int [of i] by simp
  have "parse_value (Suc n) (show_int i @ rest) = parse_number (show_int i @ rest)"
    using parse_value_number [OF st, of n "t @ rest"] by (simp add: ct)
  then show ?thesis
    using JInt parse_number_show_int [OF assms(2)] by simp
next
  case (JFloat r)
  then have ok: "float_ok fr r" using assms(1) by simp
  from float_ok_start [OF ok] obtain c t where ct: "fr r = c # t"
    and st: "c = CHR ''-'' \<or> is_digit c" by blast
  have "parse_value (Suc n) (fr r @ rest) = parse_number (fr r @ rest)"
    using parse_value_number [OF st, of n "t @ rest"] by (simp add: ct)
  then show ?thesis
    using JFloat ok assms(2) by (simp add: float_ok_def)
next
  case (JStr s)
  then show ?thesis by (simp add: show_string_def scan_string_escaped)
next
  case (JArr xs)
  then show ?thesis using assms(3) by simp
next
  case (JObj kvs)
  then show ?thesis using assms(4) by simp
qed


lemma dict_set_append: "k \<notin> fst ` set d \<Longrightarrow> dict_set d k v = d @ [(k, v)]"
  by (induction d) auto

lemma tl_member:
  "tl (member_text fr l kv)
     = concat (map escape_char (fst kv)) @ dquote # CHR '':'' # CHR '' ''
       # dumps_at fr (Suc l) (snd kv)"
  by (simp add: member_text_def show_string_def)

lemma parse_members_join:
  assumes rt: "\<And>kv n l rest. kv \<in> set kvs \<Longrightarrow> stops rest \<Longrightarrow> fuel (snd kv) \<le> n \<Longrightarrow>
                 parse_value n (dumps_at fr l (snd kv) @ rest) = Inr (snd kv, rest)"
    and wf: "\<And>kv. kv \<in> set kvs \<Longrightarrow> wf_json fr (snd kv)"
    and ne: "kvs \<noteq> []"
    and di: "distinct (map fst acc @ map fst kvs)"
    and fu: "sum_list (map (\<lambda>kv. Suc (fuel (snd kv))) kvs) \<le> n"
  shows "parse_members n acc
           (tl (str_join (CHR '','' # nl (Suc l)) (map (member_text fr l) kvs)) @ nl l @ CHR ''}'' # rest)
         = Inr (acc @ kvs, rest)"
  using assms
proof (induction kvs arbitrary: n acc)
  case Nil
  then show ?case by simp
next
  case (Cons kv more)
  obtain k v where kv: "kv = (k, v)" by (cases kv)
  obtain n' where n: "n = Suc n'" and fv: "fuel v \<le> n'"
    and fm: "sum_list (map (\<lambda>kv. Suc (fuel (snd kv))) more) \<le> n'"
    using Cons.prems(5) kv by (cases n) auto
  have wfv: "wf_json fr v" using Cons.prems(2) [of kv] kv by simp
  have fresh: "k \<notin> fst ` set acc" using Cons.prems(4) kv by auto
  have set': "dict_set acc k v = acc @ [(k, v)]" using fresh by (rule dict_set_append)
  have colon: "skip_ws (CHR '':'' # x) = CHR '':'' # x" for x
    by (simp add: skip_ws_def is_ws_def)
  have brace: "skip_ws (CHR ''}'' # x) = CHR ''}'' # x" for x
    by (simp add: skip_ws_def is_ws_def)
  have comma: "skip_ws (CHR '','' # x) = CHR '','' # x" for x
    by (simp add: skip_ws_def is_ws_def)
  have val: "parse_value n' (dumps_at fr (Suc l) v @ R) = Inr (v, R)" if "stops R" for R
  proof -
    have "parse_value n' (dumps_at fr (Suc l) (snd kv) @ R) = Inr (snd kv, R)"
      by (rule Cons.prems(1)) (use that fv kv in simp_all)
    then show ?thesis by (simp add: kv)
  qed
  show ?case
  proof (cases "more = []")
    case True
    have shape: "tl (str_join (CHR '','' # nl (Suc l)) (map (member_text fr l) (kv # more)))
                  @ nl l @ CHR ''}'' # rest
                = concat (map escape_char k) @ dquote # CHR '':'' # CHR '' ''
                  # dumps_at fr (Suc l) v @ nl l @ CHR ''}'' # rest"
      using True by (simp add: tl_member kv)
    have closing: "skip_ws (nl l @ CHR ''}'' # rest) = CHR ''}'' # rest"
      by (rule skip_ws_nl) (simp add: is_ws_def)
    show ?thesis
      unfolding shape n
      by (simp add: scan_string_escaped colon skip_ws_space skip_ws_dumps [OF wfv]
          val [OF stops_nl] closing set' True kv)
  next
    case False
    define R where "R = CHR '','' # nl (Suc l)
                        @ str_join (CHR '','' # nl (Suc l)) (map (member_text fr l) more)
                        @ nl l @ CHR ''}'' # rest"
    have shape: "tl (str_join (CHR '','' # nl (Suc l)) (map (member_text fr l) (kv # more)))
                  @ nl l @ CHR ''}'' # rest
                = concat (map escape_char k) @ dquote # CHR '':'' # CHR '' ''
                  # dumps_at fr (Suc l) v @ R"
      using False by (cases more) (simp_all add: tl_member kv R_def member_text_def show_string_def)
    have sR: "stops R" by (simp add: R_def stops_def)
    obtain m ms where more: "more = m # ms" using False by (cases more) auto
    have js: "str_join (CHR '','' # nl (Suc l)) (map (member_text fr l) more)
                = dquote # tl (str_join (CHR '','' # nl (Suc l)) (map (member_text fr l) more))"
      by (cases ms) (simp_all add: more member_text_def show_string_def)
    have next_key: "skip_ws (nl (Suc l)
                        @ str_join (CHR '','' # nl (Suc l)) (map (member_text fr l) more)
                        @ nl l @ CHR ''}'' # rest)
                    = dquote # tl (str_join (CHR '','' # nl (Suc l)) (map (member_text fr l) more))
                        @ nl l @ CHR ''}'' # rest"
    proof -
      have "\<not> is_ws dquote" by (simp add: is_ws_def dquote_def)
      from skip_ws_nl [OF this, of "Suc l"] show ?thesis
        by (subst js) simp
    qed
    have di': "distinct (map fst (acc @ [(k, v)]) @ map fst more)"
      using Cons.prems(4) kv by auto
    have ih: "parse_members n' (acc @ [(k, v)])
                (tl (str_join (CHR '','' # nl (Suc l)) (map (member_text fr l) more))
                 @ nl l @ CHR ''}'' # rest)
              = Inr ((acc @ [(k, v)]) @ more, rest)"
      using Cons.IH [where n = n' and acc = "acc @ [(k, v)]"] Cons.prems(1) Cons.prems(2) False di' fm
      by simp
    have afterR: "skip_ws R = R" by (simp add: R_def comma)
    show ?thesis
      unfolding shape n
      apply (simp add: scan_string_escaped colon skip_ws_space skip_ws_dumps [OF wfv] val [OF sR])
      apply (simp add: R_def comma next_key set' ih kv)
      done
  qed
qed


lemma join_dumps_start:
  assumes "xs \<noteq> []" and "\<And>x. x \<in> set xs \<Longrightarrow> wf_json fr x"
  shows "\<exists>c t. str_join sep (map (dumps_at fr l) xs) = c # t \<and> value_start c"
proof -
  obtain x more where xs: "xs = x # more" using assms(1) by (cases xs) auto
  have "wf_json fr x" using assms(2) xs by simp
  from dumps_start [OF this, of l] obtain c t where "dumps_at fr l x = c # t" "value_start c"
    by blast
  then show ?thesis by (cases more) (simp_all add: xs)
qed

lemma parse_elements_join:
  assumes rt: "\<And>x n l rest. x \<in> set xs \<Longrightarrow> stops rest \<Longrightarrow> fuel x \<le> n \<Longrightarrow>
                 parse_value n (dumps_at fr l x @ rest) = Inr (x, rest)"
    and wf: "\<And>x. x \<in> set xs \<Longrightarrow> wf_json fr x"
    and ne: "xs \<noteq> []"
    and fu: "sum_list (map (\<lambda>x. Suc (fuel x)) xs) \<le> n"
  shows "parse_elements n acc
           (str_join (CHR '','' # nl (Suc l)) (map (dumps_at fr (Suc l)) xs) @ nl l @ CHR '']'' # rest)
         = Inr (acc @ xs, rest)"
  using assms
proof (induction xs arbitrary: n acc)
  case Nil
  then show ?case by simp
next
  case (Cons x more)
  obtain n' where n: "n = Suc n'" and fx: "fuel x \<le> n'"
    and fm: "sum_list (map (\<lambda>x. Suc (fuel x)) more) \<le> n'"
    using Cons.prems(4) by (cases n) auto
  have val: "parse_value n' (dumps_at fr (Suc l) x @ R) = Inr (x, R)" if "stops R" for R
    by (rule Cons.prems(1)) (use that fx in simp_all)
  show ?case
  proof (cases "more = []")
    case True
    have shape: "str_join (CHR '','' # nl (Suc l)) (map (dumps_at fr (Suc l)) (x # more))
                   @ nl l @ CHR '']'' # rest
                 = dumps_at fr (Suc l) x @ nl l @ CHR '']'' # rest"
      using True by simp
    have closing: "skip_ws (nl l @ CHR '']'' # rest) = CHR '']'' # rest"
      by (rule skip_ws_nl) (simp add: is_ws_def)
    show ?thesis
      unfolding shape n
      by (simp add: val [OF stops_nl] closing True)
  next
    case False
    define J where "J = str_join (CHR '','' # nl (Suc l)) (map (dumps_at fr (Suc l)) more)"
    define R where "R = CHR '','' # nl (Suc l) @ J @ nl l @ CHR '']'' # rest"
    have shape: "str_join (CHR '','' # nl (Suc l)) (map (dumps_at fr (Suc l)) (x # more))
                   @ nl l @ CHR '']'' # rest
                 = dumps_at fr (Suc l) x @ R"
      using False by (cases more) (simp_all add: R_def J_def)
    have sR: "stops R" by (simp add: R_def stops_def)
    have afterR: "skip_ws R = R" by (simp add: R_def skip_ws_def is_ws_def)
    have "\<exists>c t. J = c # t \<and> value_start c"
      unfolding J_def using False Cons.prems(2) by (intro join_dumps_start) simp_all
    then obtain c t where J: "J = c # t" and "value_start c" by blast
    then have "\<not> is_ws c" using value_start_facts by blast
    then have next_value: "skip_ws (nl (Suc l) @ J @ nl l @ CHR '']'' # rest)
                           = J @ nl l @ CHR '']'' # rest"
      using skip_ws_nl [of c "Suc l" "t @ nl l @ CHR '']'' # rest"] by (simp add: J)
    have ih: "parse_elements n' (acc @ [x]) (J @ nl l @ CHR '']'' # rest)
              = Inr ((acc @ [x]) @ more, rest)"
      unfolding J_def
      using Cons.IH [where n = n' and acc = "acc @ [x]"] Cons.prems(1) Cons.prems(2) False fm
      by simp
    show ?thesis
      unfolding shape n
      apply (simp add: val [OF sR] afterR)
      apply (simp add: R_def next_value ih)
      done
  qed
qed

lemma parse_dumps:
  "wf_json fr v \<Longrightarrow> stops rest \<Longrightarrow> fuel v \<le> n \<Longrightarrow>
   parse_value n (dumps_at fr l v @ rest) = Inr (v, rest)"
proof (induction v arbitrary: n l rest)
  case (JArr xs)
  obtain n' where n: "n = Suc n'" and fu: "sum_list (map (\<lambda>x. Suc (fuel x)) xs) \<le> n'"
    using JArr.prems(3) by (cases n) auto
  show ?case
  proof (cases "xs = []")
    case True
    then show ?thesis
      by (simp add: n dquote_def skip_ws_def is_ws_def)
  next
    case False
    define J where "J = str_join (CHR '','' # nl (Suc l)) (map (dumps_at fr (Suc l)) xs)"
    have wf: "\<And>x. x \<in> set xs \<Longrightarrow> wf_json fr x" using JArr.prems(1) by simp
    have "\<exists>c t. J = c # t \<and> value_start c"
      unfolding J_def using False wf by (intro join_dumps_start) simp_all
    then obtain c t where J: "J = c # t" and vs: "value_start c" by blast
    have cf: "\<not> is_ws c" "c \<noteq> CHR '']''" using vs value_start_facts by blast+
    have skip: "skip_ws (nl (Suc l) @ c # t @ nl l @ CHR '']'' # rest)
                = c # t @ nl l @ CHR '']'' # rest"
      using skip_ws_nl [OF cf(1), of "Suc l" "t @ nl l @ CHR '']'' # rest"] by simp
    have els: "parse_elements n' [] (J @ nl l @ CHR '']'' # rest) = Inr ([] @ xs, rest)"
      unfolding J_def
      by (rule parse_elements_join) (use JArr.IH wf False fu in simp_all)
    have shape: "dumps_at fr l (JArr xs) @ rest
                 = CHR ''['' # nl (Suc l) @ J @ nl l @ CHR '']'' # rest"
      using False by (simp add: J_def)
    have els': "parse_elements n' [] (c # t @ nl l @ CHR '']'' # rest) = Inr (xs, rest)"
      using els by (simp add: J)
    show ?thesis
      unfolding shape n
      using cf(2) by (simp add: J skip els' dquote_def)
  qed
next
  case (JObj kvs)
  obtain n' where n: "n = Suc n'"
    and fu: "sum_list (map (\<lambda>kv. Suc (fuel (snd kv))) kvs) \<le> n'"
    using JObj.prems(3) by (cases n) auto
  show ?case
  proof (cases "kvs = []")
    case True
    then show ?thesis
      by (simp add: n dquote_def skip_ws_def is_ws_def)
  next
    case False
    define J where "J = str_join (CHR '','' # nl (Suc l)) (map (member_text fr l) kvs)"
    obtain kv more where kvs: "kvs = kv # more" using False by (cases kvs) auto
    have J: "J = dquote # tl J"
      unfolding J_def by (cases more) (simp_all add: kvs member_text_def show_string_def)
    have wf: "\<And>kv. kv \<in> set kvs \<Longrightarrow> wf_json fr (snd kv)"
      and di: "distinct (map fst kvs)" using JObj.prems(1) by simp_all
    have nq: "\<not> is_ws dquote" "dquote \<noteq> CHR ''}''" by (simp_all add: is_ws_def dquote_def)
    have skip: "skip_ws (nl (Suc l) @ J @ nl l @ CHR ''}'' # rest)
                = dquote # tl J @ nl l @ CHR ''}'' # rest"
      using skip_ws_nl [OF nq(1), of "Suc l" "tl J @ nl l @ CHR ''}'' # rest"]
      by (subst J) simp
    have ih: "parse_value m (dumps_at fr l' (snd kv) @ r) = Inr (snd kv, r)"
      if "kv \<in> set kvs" "stops r" "fuel (snd kv) \<le> m" for kv m l' r
    proof -
      have "snd kv \<in> Basic_BNFs.snds kv" by (cases kv) simp
      from JObj.IH [OF that(1) this wf [OF that(1)] that(2) that(3)] show ?thesis .
    qed
    have mem: "parse_members n' [] (tl J @ nl l @ CHR ''}'' # rest) = Inr ([] @ kvs, rest)"
      unfolding J_def
      by (rule parse_members_join) (use ih wf False di fu in simp_all)
    have shape: "dumps_at fr l (JObj kvs) @ rest
                 = CHR ''{'' # nl (Suc l) @ J @ nl l @ CHR ''}'' # rest"
      using False by (simp add: J_def member_text_def [abs_def])
    show ?thesis
      unfolding shape n
      using mem nq(2) by (simp add: skip dquote_def)
  qed
next
  case JNull
  then obtain n' where "n = Suc n'" by (cases n) auto
  then show ?case using parse_leaf [of fr JNull rest n' l] JNull.prems by simp
next
  case (JBool b)
  then obtain n' where "n = Suc n'" by (cases n) auto
  then show ?case using parse_leaf [of fr "JBool b" rest n' l] JBool.prems by simp
next
  case (JInt i)
  then obtain n' where "n = Suc n'" by (cases n) auto
  then show ?case using parse_leaf [of fr "JInt i" rest n' l] JInt.prems by simp
next
  case (JFloat r)
  then obtain n' where "n = Suc n'" by (cases n) auto
  then show ?case using parse_leaf [of fr "JFloat r" rest n' l] JFloat.prems by simp
next
  case (JStr s)
  then obtain n' where "n = Suc n'" by (cases n) auto
  then show ?case using parse_leaf [of fr "JStr s" rest n' l] JStr.prems by simp
qed


lemma join_length:
  assumes "sep \<noteq> []" and "\<And>x. x \<in> set xs \<Longrightarrow> g x \<le> length (f x)"
  shows "sum_list (map (\<lambda>x. Suc (g x)) xs) \<le> Suc (length (str_join sep (map f xs)))"
  using assms(2)
proof (induction xs)
  case Nil
  show ?case by simp
next
  case (Cons x more)
  have gx: "g x \<le> length (f x)" using Cons.prems by simp
  show ?case
  proof (cases more)
    case Nil
    then show ?thesis using gx by simp
  next
    case (Cons y ys)
    have "sum_list (map (\<lambda>x. Suc (g x)) more) \<le> Suc (length (str_join sep (map f more)))"
      using Cons.IH Cons.prems by simp
    moreover have "1 \<le> length sep" using assms(1) by (cases sep) simp_all
    ultimately show ?thesis using gx Cons by simp
  qed
qed

lemma fuel_le_length: "wf_json fr v \<Longrightarrow> fuel v \<le> length (dumps_at fr l v)"
proof (induction v arbitrary: l)
  case (JArr xs)
  show ?case
  proof (cases "xs = []")
    case True
    then show ?thesis by simp
  next
    case False
    have "sum_list (map (\<lambda>x. Suc (fuel x)) xs)
            \<le> Suc (length (str_join (CHR '','' # nl (Suc l)) (map (dumps_at fr (Suc l)) xs)))"
      by (rule join_length) (use JArr in simp_all)
    then show ?thesis using False by (simp add: nl_def)
  qed
next
  case (JObj kvs)
  show ?case
  proof (cases "kvs = []")
    case True
    then show ?thesis by simp
  next
    case False
    have each: "fuel (snd kv) \<le> length (member_text fr l kv)" if "kv \<in> set kvs" for kv
    proof -
      have "snd kv \<in> Basic_BNFs.snds kv" by (cases kv) simp
      moreover have "wf_json fr (snd kv)" using JObj.prems that by simp
      ultimately have "fuel (snd kv) \<le> length (dumps_at fr (Suc l) (snd kv))"
        using JObj.IH that by blast
      then show ?thesis by (simp add: member_text_def)
    qed
    have "sum_list (map (\<lambda>kv. Suc (fuel (snd kv))) kvs)
            \<le> Suc (length (str_join (CHR '','' # nl (Suc l)) (map (member_text fr l) kvs)))"
      by (rule join_length) (use each in simp_all)
    then show ?thesis using False by (simp add: nl_def member_text_def [abs_def])
  qed
next
  case JNull
  show ?case by simp
next
  case (JBool b)
  show ?case by simp
next
  case (JInt i)
  show ?case using show_int_nonempty [of i] by (cases "show_int i") simp_all
next
  case (JFloat r)
  then have "float_ok fr r" by simp
  from float_ok_start [OF this] show ?case by auto
next
  case (JStr s)
  show ?case by (simp add: show_string_def)
qed

lemma json_roundtrip:
  assumes "wf_json fr v"
  shows "json_loads (json_dumps fr v @ [newline]) = Inr v"
proof -
  let ?s = "json_dumps fr v @ [newline]"
  have skip: "skip_ws ?s = ?s"
    unfolding json_dumps_def by (rule skip_ws_dumps [OF assms])
  have "fuel v \<le> Suc (2 * length ?s)"
    using fuel_le_length [OF assms, of 0] by (simp add: json_dumps_def)
  moreover have "stops [newline]" by (simp add: stops_def)
  ultimately have "parse_value (Suc (2 * length ?s)) ?s = Inr (v, [newline])"
    unfolding json_dumps_def using assms by (intro parse_dumps) simp_all
  then show ?thesis
    by (simp add: json_loads_def skip skip_ws_newline)
qed

subsection \<open>The bound of the decoder\<close>

lemma skip_ws_length: "length (skip_ws s) \<le> length s"
  by (simp add: skip_ws_def length_dropWhile_le)

lemma skip_ws_Cons_length: "skip_ws s = c # t \<Longrightarrow> length t < length s"
  using skip_ws_length [of s] by simp

lemma scan_string_result:
  "(\<forall>str r. scan_string s = Inr (str, r) \<longrightarrow> length r < length s)
   \<and> (\<forall>e. scan_string s = Inl e \<longrightarrow> e = JSONDecodeError)"
proof (induction s rule: length_induct)
  case (1 s)
  have ih: "(\<forall>str r. scan_string u = Inr (str, r) \<longrightarrow> length r < length u)
            \<and> (\<forall>e. scan_string u = Inl e \<longrightarrow> e = JSONDecodeError)"
    if "length u < length s" for u
    using 1 that by blast
  show ?case
  proof (cases s)
    case Nil
    then show ?thesis by simp
  next
    case (Cons c t)
    have it: "(\<forall>str r. scan_string t = Inr (str, r) \<longrightarrow> length r < length t)
              \<and> (\<forall>e. scan_string t = Inl e \<longrightarrow> e = JSONDecodeError)"
      by (rule ih) (simp add: Cons)
    consider (quote) "c = dquote"
      | (esc) "c \<noteq> dquote" "c = backslash"
      | (ctl) "c \<noteq> dquote" "c \<noteq> backslash" "(of_char c :: nat) < 32"
      | (plain) "c \<noteq> dquote" "c \<noteq> backslash" "\<not> (of_char c :: nat) < 32"
      by blast
    then show ?thesis
    proof cases
      case quote
      then show ?thesis by (simp add: Cons)
    next
      case ctl
      then show ?thesis by (simp add: Cons)
    next
      case plain
      then have eq: "scan_string s
                 = (case scan_string t of Inl x \<Rightarrow> Inl x | Inr (str, r) \<Rightarrow> Inr (c # str, r))"
        by (simp add: Cons)
      show ?thesis
        unfolding eq using it by (auto simp: Cons split: sum.splits prod.splits)
    next
      case esc
      show ?thesis
      proof (cases t)
        case Nil
        then show ?thesis using esc by (simp add: Cons)
      next
        case (Cons e u)
        have iu: "(\<forall>str r. scan_string u = Inr (str, r) \<longrightarrow> length r < length u)
                  \<and> (\<forall>e. scan_string u = Inl e \<longrightarrow> e = JSONDecodeError)"
          by (rule ih) (simp add: Cons \<open>s = c # t\<close>)
        have id: "(\<forall>str r. scan_string (drop 4 u) = Inr (str, r) \<longrightarrow> length r < length (drop 4 u))
                  \<and> (\<forall>e. scan_string (drop 4 u) = Inl e \<longrightarrow> e = JSONDecodeError)"
          by (rule ih) (simp add: Cons \<open>s = c # t\<close>)
        show ?thesis
        proof (cases "e = CHR ''u''")
          case True
          show ?thesis
          proof (cases "hex4 u")
            case None
            then show ?thesis using esc True by (simp add: Cons \<open>s = c # t\<close>)
          next
            case (Some n)
            show ?thesis
            proof (cases "n < 256")
              case False
              then show ?thesis using esc True Some by (simp add: Cons \<open>s = c # t\<close>)
            next
              case lt: True
              have eq: "scan_string s
                 = (case scan_string (drop 4 u) of
                      Inl x \<Rightarrow> Inl x | Inr (str, r) \<Rightarrow> Inr (char_of n # str, r))"
                using esc True Some lt by (simp add: Cons \<open>s = c # t\<close>)
              show ?thesis
                unfolding eq using id
                by (auto simp: Cons \<open>s = c # t\<close> split: sum.splits prod.splits)
            qed
          qed
        next
          case False
          show ?thesis
          proof (cases "unescape e")
            case None
            then show ?thesis using esc False by (simp add: Cons \<open>s = c # t\<close>)
          next
            case (Some ch)
            have eq: "scan_string s
                 = (case scan_string u of
                      Inl x \<Rightarrow> Inl x | Inr (str, r) \<Rightarrow> Inr (ch # str, r))"
              using esc False Some by (simp add: Cons \<open>s = c # t\<close>)
            show ?thesis
              unfolding eq using iu
              by (auto simp: Cons \<open>s = c # t\<close> split: sum.splits prod.splits)
          qed
        qed
      qed
    qed
  qed
qed

lemma lex_int_shorter: "lex_int s = Some (itxt, r) \<Longrightarrow> length r < length s"
proof (cases "s \<noteq> [] \<and> hd s = CHR ''-''")
  case True
  then obtain t where s: "s = CHR ''-'' # t" by (cases s) auto
  assume "lex_int s = Some (itxt, r)"
  then show ?thesis
    using length_dropWhile_le [of is_digit t]
    by (auto simp: lex_int_def s Let_def split: list.splits if_splits)
next
  case False
  assume "lex_int s = Some (itxt, r)"
  then show ?thesis
    using False length_dropWhile_le [of is_digit "tl s"]
    by (cases s) (auto simp: lex_int_def Let_def split: list.splits if_splits)
qed

lemma lex_frac_length: "lex_frac s = (f, r) \<Longrightarrow> length r \<le> length s"
  using length_dropWhile_le [of is_digit "tl (tl s)"]
  by (auto simp: lex_frac_def split: list.splits if_splits)

lemma lex_exp_length: "lex_exp s = (e, r) \<Longrightarrow> length r \<le> length s"
proof (cases s)
  case Nil
  assume "lex_exp s = (e, r)"
  then show ?thesis using Nil by (simp add: lex_exp_def)
next
  case (Cons c t)
  assume a: "lex_exp s = (e, r)"
  have d: "length (dropWhile is_digit x) \<le> length x" for x :: string
    by (rule length_dropWhile_le)
  show ?thesis
    using a d [of "drop 1 t"] d [of t]
    by (auto simp: lex_exp_def Cons Let_def split: if_splits)
qed

lemma parse_number_result:
  "(parse_number s = Inr (v, r) \<longrightarrow> length r < length s)
   \<and> (parse_number s = Inl e \<longrightarrow> e = JSONDecodeError)"
proof (cases "lex_int s")
  case None
  then show ?thesis by (simp add: parse_number_def)
next
  case (Some a)
  obtain itxt r1 where a: "a = (itxt, r1)" by (cases a)
  obtain f r2 where f: "lex_frac r1 = (f, r2)" by (cases "lex_frac r1")
  obtain x r3 where x: "lex_exp r2 = (x, r3)" by (cases "lex_exp r2")
  have "length r3 < length s"
    using lex_int_shorter [of s itxt r1] lex_frac_length [OF f] lex_exp_length [OF x] Some a
    by simp
  then show ?thesis
    by (auto simp: parse_number_def Some a f x)
qed


lemma parse_value_step:
  assumes M: "\<And>acc s kvs r. parse_members n acc s = Inr (kvs, r) \<Longrightarrow> length r < length s"
    and Mr: "\<And>acc s. parse_members n acc s = Inl RecursionError \<Longrightarrow> n \<le> 2 * length s + 1"
    and E: "\<And>acc s xs r. parse_elements n acc s = Inr (xs, r) \<Longrightarrow> length r < length s"
    and Er: "\<And>acc s. parse_elements n acc s = Inl RecursionError \<Longrightarrow> n \<le> 2 * length s + 1"
  shows "(parse_value (Suc n) s = Inr (v, r) \<longrightarrow> length r < length s)
         \<and> (parse_value (Suc n) s = Inl RecursionError \<longrightarrow> Suc n \<le> 2 * length s)"
proof (cases s)
  case Nil
  then show ?thesis by simp
next
  case (Cons c t)
  consider (str) "c = dquote"
    | (obj) "c \<noteq> dquote" "c = CHR ''{''"
    | (arr) "c \<noteq> dquote" "c \<noteq> CHR ''{''" "c = CHR ''[''"
    | (other) "c \<noteq> dquote" "c \<noteq> CHR ''{''" "c \<noteq> CHR ''[''"
    by blast
  then show ?thesis
  proof cases
    case str
    show ?thesis
      using scan_string_result [of t] str
      by (auto simp: Cons split: sum.splits prod.splits)
  next
    case obj
    show ?thesis
    proof (cases "skip_ws t")
      case Nil
      then show ?thesis using obj by (simp add: Cons)
    next
      case (Cons d t2)
      have l2: "length t2 < length t" using Cons by (rule skip_ws_Cons_length)
      show ?thesis
      proof (cases "d = dquote")
        case False
        then show ?thesis using obj Cons l2 by (auto simp: \<open>s = c # t\<close>)
      next
        case True
        have nb: "dquote \<noteq> CHR ''}''" by (simp add: dquote_def)
        have eq: "parse_value (Suc n) s
                    = (case parse_members n [] t2 of
                         Inl e \<Rightarrow> Inl e | Inr (kvs, r) \<Rightarrow> Inr (JObj kvs, r))"
          using obj Cons True nb by (simp add: \<open>s = c # t\<close>)
        show ?thesis
          unfolding eq
          using M [of "[]" t2] Mr [of "[]" t2] l2
          by (auto simp: \<open>s = c # t\<close> split: sum.splits prod.splits)
      qed
    qed
  next
    case arr
    show ?thesis
    proof (cases "skip_ws t")
      case Nil
      then show ?thesis using arr by (simp add: Cons)
    next
      case (Cons d t2)
      have l2: "length t2 < length t" using Cons by (rule skip_ws_Cons_length)
      show ?thesis
      proof (cases "d = CHR '']''")
        case True
        then show ?thesis using arr Cons l2 by (auto simp: \<open>s = c # t\<close>)
      next
        case False
        have eq: "parse_value (Suc n) s
                    = (case parse_elements n [] (d # t2) of
                         Inl e \<Rightarrow> Inl e | Inr (xs, r) \<Rightarrow> Inr (JArr xs, r))"
          using arr Cons False by (simp add: \<open>s = c # t\<close>)
        show ?thesis
          unfolding eq
          using E [of "[]" "d # t2"] Er [of "[]" "d # t2"] l2
          by (auto simp: \<open>s = c # t\<close> split: sum.splits prod.splits)
      qed
    qed
  next
    case other
    have lit: "length (drop k s) < length s" if "0 < k" for k
      using that by (simp add: Cons)
    have eq: "parse_value (Suc n) s
                = (if take 4 s = ''null'' then Inr (JNull, drop 4 s)
                   else if take 4 s = ''true'' then Inr (JBool True, drop 4 s)
                   else if take 5 s = ''false'' then Inr (JBool False, drop 5 s)
                   else parse_number s)"
      using other by (simp add: Cons)
    show ?thesis
      unfolding eq
      using parse_number_result [of s v r RecursionError] lit [of 4] lit [of 5]
      by (auto split: if_splits)
  qed
qed

lemma parse_elements_step:
  assumes V: "\<And>s v r. parse_value n s = Inr (v, r) \<Longrightarrow> length r < length s"
    and Vr: "\<And>s. parse_value n s = Inl RecursionError \<Longrightarrow> n \<le> 2 * length s"
    and E: "\<And>acc s xs r. parse_elements n acc s = Inr (xs, r) \<Longrightarrow> length r < length s"
    and Er: "\<And>acc s. parse_elements n acc s = Inl RecursionError \<Longrightarrow> n \<le> 2 * length s + 1"
  shows "(parse_elements (Suc n) acc s = Inr (xs, r) \<longrightarrow> length r < length s)
         \<and> (parse_elements (Suc n) acc s = Inl RecursionError \<longrightarrow> Suc n \<le> 2 * length s + 1)"
proof (cases "parse_value n s")
  case (Inl e)
  then show ?thesis using Vr [of s] by auto
next
  case (Inr a)
  obtain v r1 where a: "a = (v, r1)" by (cases a)
  have l1: "length r1 < length s" using V [of s v r1] Inr a by simp
  show ?thesis
  proof (cases "skip_ws r1")
    case Nil
    then show ?thesis using Inr a by simp
  next
    case (Cons d r2)
    have l2: "length r2 < length r1" using Cons by (rule skip_ws_Cons_length)
    have l3: "length (skip_ws r2) \<le> length r2" by (rule skip_ws_length)
    show ?thesis
      using Inr a Cons l1 l2 l3
        E [of "acc @ [v]" "skip_ws r2" xs r] Er [of "acc @ [v]" "skip_ws r2"]
      by auto
  qed
qed

lemma parse_members_step:
  assumes V: "\<And>s v r. parse_value n s = Inr (v, r) \<Longrightarrow> length r < length s"
    and Vr: "\<And>s. parse_value n s = Inl RecursionError \<Longrightarrow> n \<le> 2 * length s"
    and M: "\<And>acc s kvs r. parse_members n acc s = Inr (kvs, r) \<Longrightarrow> length r < length s"
    and Mr: "\<And>acc s. parse_members n acc s = Inl RecursionError \<Longrightarrow> n \<le> 2 * length s + 1"
  shows "(parse_members (Suc n) acc s = Inr (kvs, r) \<longrightarrow> length r < length s)
         \<and> (parse_members (Suc n) acc s = Inl RecursionError \<longrightarrow> Suc n \<le> 2 * length s + 1)"
proof (cases "scan_string s")
  case (Inl e)
  then show ?thesis using scan_string_result [of s] by auto
next
  case (Inr a)
  obtain key r1 where a: "a = (key, r1)" by (cases a)
  have l1: "length r1 < length s" using scan_string_result [of s] Inr a by simp
  show ?thesis
  proof (cases "skip_ws r1")
    case Nil
    then show ?thesis using Inr a by simp
  next
    case (Cons c r2)
    have l2: "length r2 < length r1" using Cons by (rule skip_ws_Cons_length)
    have l2': "length (skip_ws r2) \<le> length r2" by (rule skip_ws_length)
    show ?thesis
    proof (cases "c = CHR '':''")
      case False
      then show ?thesis using Inr a Cons by simp
    next
      case colon: True
      show ?thesis
      proof (cases "parse_value n (skip_ws r2)")
        case (Inl e)
        then show ?thesis
          using \<open>scan_string s = Inr a\<close> a Cons colon Vr [of "skip_ws r2"] l1 l2 l2'
          by auto
      next
        case val: (Inr b)
        obtain v r3 where b: "b = (v, r3)" by (cases b)
        have l3: "length r3 < length (skip_ws r2)" using V [of "skip_ws r2" v r3] val b by simp
        show ?thesis
        proof (cases "skip_ws r3")
          case Nil
          then show ?thesis using \<open>scan_string s = Inr a\<close> a Cons colon val b by simp
        next
          case d: (Cons d r4)
          have l4: "length r4 < length r3" using d by (rule skip_ws_Cons_length)
          show ?thesis
          proof (cases "skip_ws r4")
            case Nil
            then show ?thesis
              using \<open>scan_string s = Inr a\<close> a Cons colon val b d l1 l2 l2' l3 l4
              by auto
          next
            case q: (Cons q r5)
            have l5: "length r5 < length r4" using q by (rule skip_ws_Cons_length)
            show ?thesis
              using \<open>scan_string s = Inr a\<close> a Cons colon val b d q l1 l2 l2' l3 l4 l5
                M [of "dict_set acc key v" r5 kvs r] Mr [of "dict_set acc key v" r5]
              by auto
          qed
        qed
      qed
    qed
  qed
qed

lemma parse_bound:
  "(\<forall>s v r. parse_value n s = Inr (v, r) \<longrightarrow> length r < length s)
   \<and> (\<forall>s. parse_value n s = Inl RecursionError \<longrightarrow> n \<le> 2 * length s)
   \<and> (\<forall>acc s kvs r. parse_members n acc s = Inr (kvs, r) \<longrightarrow> length r < length s)
   \<and> (\<forall>acc s. parse_members n acc s = Inl RecursionError \<longrightarrow> n \<le> 2 * length s + 1)
   \<and> (\<forall>acc s xs r. parse_elements n acc s = Inr (xs, r) \<longrightarrow> length r < length s)
   \<and> (\<forall>acc s. parse_elements n acc s = Inl RecursionError \<longrightarrow> n \<le> 2 * length s + 1)"
proof (induction n)
  case 0
  show ?case by simp
next
  case (Suc n)
  have V: "\<And>s v r. parse_value n s = Inr (v, r) \<Longrightarrow> length r < length s"
    and Vr: "\<And>s. parse_value n s = Inl RecursionError \<Longrightarrow> n \<le> 2 * length s"
    and M: "\<And>acc s kvs r. parse_members n acc s = Inr (kvs, r) \<Longrightarrow> length r < length s"
    and Mr: "\<And>acc s. parse_members n acc s = Inl RecursionError \<Longrightarrow> n \<le> 2 * length s + 1"
    and E: "\<And>acc s xs r. parse_elements n acc s = Inr (xs, r) \<Longrightarrow> length r < length s"
    and Er: "\<And>acc s. parse_elements n acc s = Inl RecursionError \<Longrightarrow> n \<le> 2 * length s + 1"
    using Suc by blast+
  have pv: "(parse_value (Suc n) s = Inr (v, r) \<longrightarrow> length r < length s)
            \<and> (parse_value (Suc n) s = Inl RecursionError \<longrightarrow> Suc n \<le> 2 * length s)"
    for s v r
    by (rule parse_value_step) (erule M Mr E Er)+
  have pm: "(parse_members (Suc n) acc s = Inr (kvs, r) \<longrightarrow> length r < length s)
            \<and> (parse_members (Suc n) acc s = Inl RecursionError \<longrightarrow> Suc n \<le> 2 * length s + 1)"
    for acc s kvs r
    by (rule parse_members_step) (erule V Vr M Mr)+
  have pe: "(parse_elements (Suc n) acc s = Inr (xs, r) \<longrightarrow> length r < length s)
            \<and> (parse_elements (Suc n) acc s = Inl RecursionError \<longrightarrow> Suc n \<le> 2 * length s + 1)"
    for acc s xs r
    by (rule parse_elements_step) (erule V Vr E Er)+
  show ?case
    using pv pm pe by blast
qed

lemma json_loads_bound: "json_loads s \<noteq> Inl RecursionError"
proof
  assume a: "json_loads s = Inl RecursionError"
  have "parse_value (Suc (2 * length s)) (skip_ws s) = Inl RecursionError"
    using a by (auto simp: json_loads_def split: sum.splits prod.splits if_splits)
  then have "Suc (2 * length s) \<le> 2 * length (skip_ws s)"
    using parse_bound [of "Suc (2 * length s)"] by blast
  then show False using skip_ws_length [of s] by simp
qed

subsection \<open>The snapshot through the baseline file\<close>

lemma distinct_dict_set:
  "distinct (dict_keys d) \<Longrightarrow> distinct (dict_keys (dict_set d k v))"
proof (induction d)
  case Nil
  show ?case by (simp add: dict_keys_def)
next
  case (Cons a d)
  obtain k' v' where a: "a = (k', v')" by (cases a)
  show ?case
  proof (cases "k' = k")
    case True
    then show ?thesis using Cons.prems by (simp add: a dict_keys_def)
  next
    case False
    have "k' \<notin> set (dict_keys (dict_set d k v))"
      using Cons.prems False by (simp add: dict_keys_dict_set a) (simp add: dict_keys_def)
    moreover have "distinct (dict_keys (dict_set d k v))"
      using Cons by (simp add: dict_keys_def)
    ultimately show ?thesis using False by (simp add: a dict_keys_def)
  qed
qed

lemma measure_dir_loop_distinct:
  "distinct (dict_keys acc) \<Longrightarrow> distinct (dict_keys (measure_dir_loop fs enc dp names acc))"
  by (induction names arbitrary: acc) (auto simp: distinct_dict_set split: prod.splits)

lemma set_dict_set_values:
  "set (dict_values (dict_set d k v)) \<subseteq> insert v (set (dict_values d))"
  using set_dict_set [of d k v] by (auto simp: dict_values_def)

lemma measure_prompt_files_loop_distinct:
  "measure_prompt_files_loop fs enc dirs results = Inr out \<Longrightarrow>
   distinct (dict_keys results) \<Longrightarrow> (\<forall>files\<in>set (dict_values results). distinct (dict_keys files)) \<Longrightarrow>
   distinct (dict_keys out) \<and> (\<forall>files\<in>set (dict_values out). distinct (dict_keys files))"
proof (induction dirs arbitrary: results)
  case Nil
  then show ?case by simp
next
  case (Cons d ds)
  show ?case
  proof (cases "path_exists fs d")
    case False
    then have "measure_prompt_files_loop fs enc ds results = Inr out"
      using Cons.prems by simp
    from Cons.IH [OF this Cons.prems(2) Cons.prems(3)] show ?thesis .
  next
    case True
    then obtain names where names: "listdir fs d = Inr names"
      using Cons.prems by (auto split: sum.splits)
    let ?dr = "measure_dir_loop fs enc d names []"
    show ?thesis
    proof (cases "?dr \<noteq> []")
      case ne: True
      have run: "measure_prompt_files_loop fs enc ds (dict_set results d ?dr) = Inr out"
        using Cons.prems True names ne by (simp add: Let_def)
      have d1: "distinct (dict_keys (dict_set results d ?dr))"
        using Cons.prems(2) by (rule distinct_dict_set)
      have "distinct (dict_keys ?dr)"
        by (rule measure_dir_loop_distinct) (simp add: dict_keys_def)
      then have d2: "\<forall>files\<in>set (dict_values (dict_set results d ?dr)). distinct (dict_keys files)"
        using set_dict_set_values [of results d ?dr] Cons.prems(3) by auto
      from Cons.IH [OF run d1 d2] show ?thesis .
    next
      case False
      have "measure_prompt_files_loop fs enc ds results = Inr out"
        using Cons.prems True names False by (simp add: Let_def)
      from Cons.IH [OF this Cons.prems(2) Cons.prems(3)] show ?thesis .
    qed
  qed
qed

lemma wf_to_json:
  assumes "build_data fs enc now = Inr d"
    and "list_all (float_ok fr) (snapshot_floats d)"
  shows "wf_json fr (to_json d)"
proof -
  obtain pf where pf: "measure_prompt_files fs enc = Inr pf"
    and d: "d = \<lparr>data_timestamp = now,
                  data_commands = measure_commands fs enc,
                  data_execute_invocation = measure_execute_invocation fs enc,
                  data_prompt_files = pf,
                  data_totals =
                    \<lparr>all_large_commands_tokens = sum_list (map tokens (dict_values (measure_commands fs enc))),
                     all_large_commands_lines = sum_list (map lines (dict_values (measure_commands fs enc)))\<rparr>\<rparr>"
    using assms(1) by (auto simp: build_data_def Let_def split: sum.splits)
  have cmds_keys: "distinct (map fst (data_commands d))"
    by (simp add: d measure_commands_eq command_entry_def comp_def commands_def)
  have cmds_fl: "\<forall>c\<in>set (dict_values (data_commands d)). float_ok fr (pct_of_200k c)"
    using assms(2) by (auto simp: snapshot_floats_def list_all_iff)
  have used: "float_ok fr (pct_used (data_execute_invocation d))"
    using assms(2) by (simp add: snapshot_floats_def)
  have pfd: "distinct (dict_keys (data_prompt_files d))
             \<and> (\<forall>files\<in>set (dict_values (data_prompt_files d)). distinct (dict_keys files))"
    using measure_prompt_files_loop_distinct [of fs enc prompt_dirs "[]" pf] pf
    by (simp add: d measure_prompt_files_def dict_keys_def dict_values_def)
  have comps: "distinct (map fst (components (data_execute_invocation d)))"
    by (simp add: d measure_execute_invocation_def Let_def)
  have a: "wf_json fr (JObj (map (\<lambda>kv. (fst kv, command_json (snd kv))) (data_commands d)))"
    using cmds_keys cmds_fl by (auto simp: comp_def command_json_def dict_values_def)
  have b: "wf_json fr (invocation_json (data_execute_invocation d))"
    using comps used by (simp add: invocation_json_def comp_def)
  have c: "wf_json fr (JObj (map (\<lambda>kv. (fst kv, JObj (map (\<lambda>fm. (fst fm, metric_json (snd fm))) (snd kv))))
                   (data_prompt_files d)))"
    using pfd by (auto simp: comp_def metric_json_def dict_keys_def dict_values_def)
  show ?thesis
    using a b c by (simp add: to_json_def)
qed

lemma parse_number_decimal:
  assumes "stops rest" and "list_all is_digit ds" and "ds \<noteq> []"
  shows "parse_number (show_nat a @ CHR ''.'' # ds @ rest)
         = Inr (JFloat (nearest_double (of_nat a + of_nat (digits_value ds) / 10 ^ length ds)),
                rest)"
proof -
  have dot: "\<not> is_digit CHR ''.''" by (simp add: is_digit_def)
  have li: "lex_int (show_nat a @ CHR ''.'' # ds @ rest) = Some (show_nat a, CHR ''.'' # ds @ rest)"
    by (rule lex_int_show_nat) (simp add: dot)
  obtain d ds' where ds: "ds = d # ds'" using assms(3) by (cases ds) auto
  have dd: "is_digit d" using assms(2) ds by simp
  have tw: "takeWhile is_digit (ds @ rest) = ds \<and> dropWhile is_digit (ds @ rest) = rest"
    using takeWhile_digits [OF assms(2) stops_not_digit [OF assms(1)]] .
  have lf: "lex_frac (CHR ''.'' # ds @ rest) = (ds, rest)"
    using tw dd by (simp add: lex_frac_def ds)
  obtain c t where ct: "show_nat a = c # t"
    using show_nat_nonempty [of a] by (cases "show_nat a") auto
  have "is_digit c" using show_nat_digits [of a] ct by simp
  then have cm: "c \<noteq> CHR ''-''" by (auto simp: is_digit_def)
  have fv: "float_of_text (show_nat a) ds []
              = of_nat a + of_nat (digits_value ds) / 10 ^ length ds"
    using cm by (simp add: float_of_text_def ct [symmetric] digits_value_show_nat Let_def)
      (simp add: ct)
  show ?thesis
    using assms(3) by (simp add: parse_number_def li lf lex_exp_stops [OF assms(1)] fv)
qed

lemma round_half_even_int: "round_half_even (of_int i) = i"
  by (simp add: round_half_even_def)

lemma float_ok_hundredths:
  assumes r: "nearest_double (of_nat k / 100) = r"
    and near: "round_half_even (r * 100) = int k"
  shows "float_ok repr_hundredths r"
proof -
  define a where "a = k div 100"
  define b where "b = k mod 100"
  define ds where "ds = (if b mod 10 = 0 then [digit_char (b div 10)]
                         else [digit_char (b div 10), digit_char (b mod 10)])"
  have b100: "b < 100" by (simp add: b_def)
  then have b10: "b div 10 < 10" by simp
  have k: "k = 100 * a + b" by (simp add: a_def b_def)
  have rep: "repr_hundredths r = show_nat a @ CHR ''.'' # ds"
    unfolding repr_hundredths_def near by (simp add: Let_def a_def b_def ds_def)
  have dig: "list_all is_digit ds"
    using b10 by (simp add: ds_def is_digit_digit_char)
  have ne: "ds \<noteq> []" by (simp add: ds_def)
  have val: "(of_nat (digits_value ds) :: rat) / 10 ^ length ds = of_nat b / 100"
  proof (cases "b mod 10 = 0")
    case True
    then have "b = 10 * (b div 10)" by presburger
    then have "(of_nat b :: rat) = 10 * of_nat (b div 10)"
      by (metis of_nat_mult of_nat_numeral)
    then show ?thesis
      using True b10 by (simp add: ds_def digits_value_def of_char_digit_char)
  next
    case False
    have "digits_value ds = 10 * (b div 10) + b mod 10"
      using False b10 by (simp add: ds_def digits_value_def of_char_digit_char)
    then have "digits_value ds = b" by simp
    then show ?thesis using False by (simp add: ds_def)
  qed
  have tot: "(of_nat a :: rat) + of_nat b / 100 = of_nat k / 100"
    by (simp add: k)
  show ?thesis
    unfolding float_ok_def rep
    using parse_number_decimal [OF _ dig ne, of _ a] val tot r by simp
qed

lemma float_ok_tree:
  "float_ok repr_hundredths 0" "float_ok repr_hundredths (5 / 2)"
proof -
  have "nearest_double (of_nat 0 / 100) = 0" by (simp add: nearest_double_def)
  then show "float_ok repr_hundredths 0"
    by (rule float_ok_hundredths) (simp add: round_half_even_int [of 0, simplified])
  have "nearest_double (of_nat 250 / 100) = 5 / 2" by code_simp
  moreover have "round_half_even (5 / 2 * 100) = int 250" by code_simp
  ultimately show "float_ok repr_hundredths (5 / 2)"
    by (rule float_ok_hundredths)
qed

lemma tree_snapshot_floats:
  "(case build_data tree char_tokenizer ''2025-01-15T10:30:00'' of
      Inl e \<Rightarrow> []
    | Inr d \<Rightarrow> snapshot_floats d) = [0, 0, 0, 0, 0, 0, 5 / 2]"
  by code_simp

text \<open>
  Claim C4. For every snapshot that \<^verbatim>\<open>main\<close> builds, what \<^verbatim>\<open>measure-context.py --json\<close>
  prints, stored as the baseline file and loaded by \<^verbatim>\<open>load_baseline\<close>, is the snapshot
  again: the same keys in the same order, every string and every integer unchanged.
  The floats of a snapshot are its rounded percentages; of their text the proof uses
  only that \<^verbatim>\<open>float.__repr__\<close> writes a number that reads back as the same float.
\<close>

theorem baseline_round_trip:
  assumes "build_data fs enc now = Inr d"
    and "list_all (float_ok float_repr) (snapshot_floats d)"
  shows "measure_main_json fs enc now float_repr = Inr (json_output float_repr d)
         \<and> load_baseline (with_baseline fs' (json_output float_repr d)) json_loads
             = ([], Inr (Some (to_json d)))"
proof -
  have "json_loads (json_output float_repr d) = Inr (to_json d)"
    unfolding json_output_def by (rule json_roundtrip) (rule wf_to_json [OF assms])
  then show ?thesis
    using assms(1)
    by (simp add: measure_main_json_def load_baseline_def load_baseline_try_def with_baseline_def)
qed


theorem baseline_round_trip_witness:
  "\<exists>d. build_data tree char_tokenizer ''2025-01-15T10:30:00'' = Inr d
       \<and> snapshot_floats d = [0, 0, 0, 0, 0, 0, 5 / 2]
       \<and> list_all (float_ok repr_hundredths) (snapshot_floats d)
       \<and> load_baseline (with_baseline tree (json_output repr_hundredths d)) json_loads
           = ([], Inr (Some (to_json d)))"
proof -
  obtain d where d: "build_data tree char_tokenizer ''2025-01-15T10:30:00'' = Inr d"
    by (simp add: build_data_def tree_prompt_files Let_def)
  have fl: "snapshot_floats d = [0, 0, 0, 0, 0, 0, 5 / 2]"
    using tree_snapshot_floats by (simp add: d)
  have ok: "list_all (float_ok repr_hundredths) (snapshot_floats d)"
    using float_ok_tree by (simp add: fl)
  show ?thesis
    using d fl ok baseline_round_trip [OF d ok, of tree] by blast
qed

subsection \<open>The comparison against a stored snapshot\<close>

text \<open>
  The baseline token counts of the rows are not negative when the baseline file is what
  \<^verbatim>\<open>measure-context.py --json\<close> printed.
\<close>

lemma build_data_tokens_nonneg:
  assumes "build_data fs enc now = Inr d"
    and "(name, c) \<in> set (data_commands d)"
  shows "0 \<le> tokens c"
proof -
  have "data_commands d = map (command_entry fs enc) commands"
    using assms(1) by (auto simp: build_data_def Let_def measure_commands_eq split: sum.splits)
  then have "(name, c) \<in> command_entry fs enc ` set commands"
    using assms(2) by simp
  then obtain np where "(name, c) = command_entry fs enc np"
    by auto
  then have "c = snd (command_entry fs enc np)"
    by (metis snd_conv)
  then show ?thesis
    using count_tokens_nonneg [of fs enc "snd np"] by (simp add: command_entry_def)
qed

lemma row_step_stored_snapshot:
  assumes "build_data fs enc now = Inr d"
    and "row_step (to_json d) name m = Inr row"
  shows "0 \<le> baseline_tokens row"
proof -
  let ?cmds = "map (\<lambda>kv. (fst kv, command_json (snd kv))) (data_commands d)"
  have get: "py_getitem (to_json d) ''commands'' = Inr (JObj ?cmds)"
    by (simp add: to_json_def)
  show ?thesis
  proof (cases "map_of ?cmds name")
    case None
    then have "row = make_row name 0 (of_int (tokens m))"
      using assms(2) get by (simp add: row_step_def)
    then show ?thesis by (simp add: make_row_def Let_def)
  next
    case (Some v)
    then have "(name, v) \<in> set ?cmds" by (rule map_of_SomeD)
    then obtain c where c: "(name, c) \<in> set (data_commands d)" and v: "v = command_json c"
      by auto
    have "py_get v ''tokens'' (JInt 0) = Inr (JInt (tokens c))"
      by (simp add: v command_json_def)
    then have "row = make_row name (of_int (tokens c)) (of_int (tokens m))"
      using assms(2) get Some by (simp add: row_step_def)
    then show ?thesis
      using build_data_tokens_nonneg [OF assms(1) c] by (simp add: make_row_def Let_def)
  qed
qed

lemma compare_stored_snapshot_nonneg:
  assumes "build_data fs enc now = Inr d"
    and "list_all (float_ok float_repr) (snapshot_floats d)"
    and "compare_main (with_baseline fs' (json_output float_repr d)) enc' json_loads today
           = (outs, r)"
    and "row \<in> set (rows_of outs)"
  shows "0 \<le> baseline_tokens row"
proof -
  let ?fs = "with_baseline fs' (json_output float_repr d)"
  have "json_loads (json_output float_repr d) = Inr (to_json d)"
    unfolding json_output_def by (rule json_roundtrip) (rule wf_to_json [OF assms(1) assms(2)])
  then have ld: "load_baseline ?fs json_loads = ([], Inr (Some (to_json d)))"
    by (simp add: load_baseline_def load_baseline_try_def with_baseline_def)
  from compare_main_rows [OF assms(3)]
  have rows: "rows_of outs = rows_of (fst (rows_section (to_json d) (measure_current ?fs enc')))"
    using assms(4) ld by (auto simp: quiet_def)
  obtain os' r' where sec: "rows_section (to_json d) (measure_current ?fs enc') = (os', r')"
    by (cases "rows_section (to_json d) (measure_current ?fs enc')")
  have "row \<in> set (rows_of os')"
    using assms(4) rows sec by simp
  from rows_section_rows [OF sec this] obtain name m
    where "row_step (to_json d) name m = Inr row"
    by blast
  from row_step_stored_snapshot [OF assms(1) this] show ?thesis .
qed

end
